theory Spec2Isabelle
  imports Main "HOL-Library.Word"
begin

unbundle bit_operations_syntax

section \<open>The USBasp programming engine: data model\<close>

text \<open>
  The firmware runs on an ATmega8 and is compiled with avr-gcc: \<open>uchar\<close> is 8 bits,
  \<open>int\<close> and \<open>unsigned int\<close> are 16 bits, \<open>unsigned long\<close> is 32 bits, and
  the machine is little-endian.

  Two revisions of \<open>main.c\<close> are modelled. The later one (last change 2009-02-28)
  keeps \<open>prog_address\<close> in an \<open>unsigned long\<close>; the earlier one
  (\<open>firmware/main.c\<close>, last change 2006-12-29) keeps it in an \<open>unsigned int\<close>. Their
  \<open>usbFunctionRead\<close> and \<open>usbFunctionWrite\<close> are the same text, so both are
  modelled once, over an address of any width \<open>'a\<close>: \<open>32\<close> for the later
  revision, \<open>16\<close> for the earlier.
\<close>

type_synonym uchar = "8 word"
type_synonym uint = "16 word"

subsection \<open>Constants of the protocol\<close>

text \<open>Command numbers, programmer states and block flags, as the earlier revision
  defines them (\<open>firmware/main.c\<close>, lines 28 to 44).\<close>

definition USBASP_FUNC_CONNECT :: uchar where "USBASP_FUNC_CONNECT = 1"
definition USBASP_FUNC_DISCONNECT :: uchar where "USBASP_FUNC_DISCONNECT = 2"
definition USBASP_FUNC_TRANSMIT :: uchar where "USBASP_FUNC_TRANSMIT = 3"
definition USBASP_FUNC_READFLASH :: uchar where "USBASP_FUNC_READFLASH = 4"
definition USBASP_FUNC_ENABLEPROG :: uchar where "USBASP_FUNC_ENABLEPROG = 5"
definition USBASP_FUNC_WRITEFLASH :: uchar where "USBASP_FUNC_WRITEFLASH = 6"
definition USBASP_FUNC_READEEPROM :: uchar where "USBASP_FUNC_READEEPROM = 7"
definition USBASP_FUNC_WRITEEEPROM :: uchar where "USBASP_FUNC_WRITEEEPROM = 8"

text \<open>Modelled from the spec: the header \<open>usbasp.h\<close> of the later revision is not
  among the sources, and with it the numbers of the two commands that revision adds.
  The spec numbers the ten command kinds 1 to 10 in protocol order; the first eight are
  the ones above, which leaves 9 for SetExtendedAddress and 10 for
  SetProgrammingClock.\<close>

definition USBASP_FUNC_SETLONGADDRESS :: uchar where "USBASP_FUNC_SETLONGADDRESS = 9"
definition USBASP_FUNC_SETISPSCK :: uchar where "USBASP_FUNC_SETISPSCK = 10"

definition PROG_STATE_IDLE :: uchar where "PROG_STATE_IDLE = 0"
definition PROG_STATE_WRITEFLASH :: uchar where "PROG_STATE_WRITEFLASH = 1"
definition PROG_STATE_READFLASH :: uchar where "PROG_STATE_READFLASH = 2"
definition PROG_STATE_READEEPROM :: uchar where "PROG_STATE_READEEPROM = 3"
definition PROG_STATE_WRITEEEPROM :: uchar where "PROG_STATE_WRITEEEPROM = 4"

definition PROG_BLOCKFLAG_FIRST :: uchar where "PROG_BLOCKFLAG_FIRST = 1"
definition PROG_BLOCKFLAG_LAST :: uchar where "PROG_BLOCKFLAG_LAST = 2"

definition KEY_ENTER :: uchar where "KEY_ENTER = 40"

text \<open>The constants of the USB driver's header (\<open>usbdrv.h\<close>), of the toolchain's
  register header and the slow clock selector of \<open>usbasp.h\<close> are used by
  \<open>usbFunctionSetup\<close> but defined in no source file at hand: they are parameters.\<close>

record platform =
  USBRQ_TYPE_MASK :: uchar
  USBRQ_TYPE_CLASS :: uchar
  USBRQ_HID_GET_REPORT :: uchar
  USBRQ_HID_GET_IDLE :: uchar
  USBRQ_HID_SET_IDLE :: uchar
  USBASP_ISP_SCK_8 :: uchar
  PC2 :: nat

subsection \<open>The target port\<close>

text \<open>Every call of a primitive of the programming port (\<open>isp.h\<close>) and of the
  indicator is recorded, in order, with its arguments.\<close>

datatype 'w isp_call =
    IspSetSCKOption uchar
  | IspConnect
  | IspDisconnect
  | LedRedOn
  | LedRedOff
  | IspTransmit uchar
  | IspEnterProgrammingMode
  | IspReadFlash 'w
  | IspReadEEPROM 'w
  | IspWriteFlash 'w uchar uchar
  | IspFlushPage 'w uchar
  | IspWriteEEPROM 'w uchar

text \<open>What the primitives and the input pins answer. The target is stateful, so an
  answer may depend on every call made so far.\<close>

record 'w target_port =
  ispTransmit_ret :: "'w isp_call list \<Rightarrow> uchar \<Rightarrow> uchar"
  ispEnterProgrammingMode_ret :: "'w isp_call list \<Rightarrow> uchar"
  ispReadFlash_ret :: "'w isp_call list \<Rightarrow> 'w \<Rightarrow> uchar"
  ispReadEEPROM_ret :: "'w isp_call list \<Rightarrow> 'w \<Rightarrow> uchar"
  PINC :: "'w isp_call list \<Rightarrow> uchar"
  pgm_past_keyReport :: "nat \<Rightarrow> uchar"

subsection \<open>The command packet and the session\<close>

text \<open>The 8 bytes of a command, \<open>uchar data[8]\<close>. The code also reads them
  through \<open>usbRequest_t\<close>: \<open>bmRequestType\<close> is byte 0, \<open>bRequest\<close> is byte 1
  and \<open>wValue.bytes[1]\<close> is byte 3.\<close>

record setup_data =
  data0 :: uchar
  data1 :: uchar
  data2 :: uchar
  data3 :: uchar
  data4 :: uchar
  data5 :: uchar
  data6 :: uchar
  data7 :: uchar

abbreviation bmRequestType :: "setup_data \<Rightarrow> uchar" where
  "bmRequestType d \<equiv> data0 d"

abbreviation bRequest :: "setup_data \<Rightarrow> uchar" where
  "bRequest d \<equiv> data1 d"

datatype msg_ptr = Msg_unset | Msg_replyBuffer | Msg_idleRate

text \<open>The file-level variables of the firmware, with the history of port calls. The
  address has type \<open>'w\<close>: \<open>32 word\<close> in the later revision, \<open>16 word\<close> in the
  earlier one, whose code has no \<open>prog_sck\<close>, no \<open>prog_address_newmode\<close> and none
  of the keyboard variables.\<close>

record 'w session =
  replyBuffer :: "uchar list"
  prog_state :: uchar
  prog_sck :: uchar
  prog_address_newmode :: uchar
  prog_address :: 'w
  prog_nbytes :: uint
  prog_pagesize :: uint
  prog_blockflags :: uchar
  prog_pagecounter :: uchar
  reportBuffer :: "uchar list"
  idleRate :: uchar
  lastKey :: uchar
  usbMsgPtr :: msg_ptr
  isp_log :: "'w isp_call list"

definition isp_call :: "'w isp_call \<Rightarrow> 'w session \<Rightarrow> 'w session" where
  "isp_call e s = s\<lparr>isp_log := isp_log s @ [e]\<rparr>"

section \<open>The chunked writer\<close>

text \<open>Lines 251 to 270 of \<open>usbFunctionWrite\<close>: one byte goes to the target.\<close>

definition write_store :: "uchar \<Rightarrow> 'a::len word session \<Rightarrow> 'a word session" where
  "write_store b s =
     (if prog_state s = PROG_STATE_WRITEFLASH then
        (if prog_pagesize s = 0 then
           isp_call (IspWriteFlash (prog_address s) b 1) s
         else
           (let s1 = isp_call (IspWriteFlash (prog_address s) b 0) s;
                s2 = s1\<lparr>prog_pagecounter := prog_pagecounter s1 - 1\<rparr>
            in if prog_pagecounter s2 = 0 then
                 (isp_call (IspFlushPage (prog_address s2) b) s2)
                   \<lparr>prog_pagecounter := ucast (prog_pagesize s2)\<rparr>
               else s2))
      else
        isp_call (IspWriteEEPROM (prog_address s) b) s)"

text \<open>Lines 272 to 284: the byte count, the end of the transfer and the forced flush.
  In \<open>prog_pagecounter != prog_pagesize\<close> the 8-bit counter is converted to the
  16-bit type of the page size.\<close>

definition write_count :: "uchar \<Rightarrow> uchar \<times> 'a::len word session \<Rightarrow> uchar \<times> 'a word session" where
  "write_count b rs =
     (let retVal = fst rs;
          s1 = (snd rs)\<lparr>prog_nbytes := prog_nbytes (snd rs) - 1\<rparr>
      in if prog_nbytes s1 = 0 then
           (let s2 = s1\<lparr>prog_state := PROG_STATE_IDLE\<rparr>;
                s3 = (if prog_blockflags s2 AND PROG_BLOCKFLAG_LAST \<noteq> 0
                         \<and> ucast (prog_pagecounter s2) \<noteq> prog_pagesize s2
                      then isp_call (IspFlushPage (prog_address s2) b) s2
                      else s2)
            in (1, s3))
         else (retVal, s1))"

text \<open>One pass of the loop of \<open>usbFunctionWrite\<close> (lines 249 to 287) on the byte
  \<open>data[i]\<close>, from the pair of \<open>retVal\<close> and the variables to the same pair.\<close>

definition write_iter :: "uchar \<Rightarrow> uchar \<times> 'a::len word session \<Rightarrow> uchar \<times> 'a word session" where
  "write_iter b rs =
     (let rs1 = write_count b (fst rs, write_store b (snd rs))
      in (fst rs1, (snd rs1)\<lparr>prog_address := prog_address (snd rs1) + 1\<rparr>))"

text \<open>\<open>usbFunctionWrite(data, len)\<close>. The loop reads \<open>data[0]\<close> to
  \<open>data[len - 1]\<close>; a buffer shorter than \<open>len\<close> would be read past its end,
  which is the result \<open>None\<close>.\<close>

definition usbFunctionWrite ::
  "uchar list \<Rightarrow> uchar \<Rightarrow> 'a::len word session \<Rightarrow> (uchar \<times> 'a word session) option" where
  "usbFunctionWrite data len s =
     (if prog_state s \<noteq> PROG_STATE_WRITEFLASH \<and> prog_state s \<noteq> PROG_STATE_WRITEEEPROM
      then Some (0xff, s)
      else if length data < unat len then None
      else Some (fold write_iter (take (unat len) data) (0, s)))"

section \<open>The chunked reader\<close>

text \<open>One pass of the loop of \<open>usbFunctionRead\<close> (lines 221 to 228): the byte stored
  into \<open>data[i]\<close> and the variables afterwards.\<close>

definition read_iter ::
  "'a::len word target_port \<Rightarrow> 'a word session \<Rightarrow> uchar \<times> 'a word session" where
  "read_iter p s =
     (let r = (if prog_state s = PROG_STATE_READFLASH
               then (ispReadFlash_ret p (isp_log s) (prog_address s),
                     isp_call (IspReadFlash (prog_address s)) s)
               else (ispReadEEPROM_ret p (isp_log s) (prog_address s),
                     isp_call (IspReadEEPROM (prog_address s)) s))
      in (fst r, (snd r)\<lparr>prog_address := prog_address (snd r) + 1\<rparr>))"

text \<open>The loop, for the \<open>n\<close> passes that remain: the bytes stored into \<open>data\<close>, in
  order, and the variables afterwards.\<close>

fun read_loop ::
  "'a::len word target_port \<Rightarrow> nat \<Rightarrow> 'a word session \<Rightarrow> uchar list \<times> 'a word session" where
  "read_loop p 0 s = ([], s)"
| "read_loop p (Suc n) s =
     (let r1 = read_iter p s;
          r = read_loop p n (snd r1)
      in (fst r1 # fst r, snd r))"

text \<open>\<open>usbFunctionRead(data, len)\<close>: the returned byte, the bytes stored into
  \<open>data\<close> and the variables afterwards.\<close>

definition usbFunctionRead ::
  "'a::len word target_port \<Rightarrow> uchar \<Rightarrow> 'a word session
     \<Rightarrow> uchar \<times> uchar list \<times> 'a word session" where
  "usbFunctionRead p len s =
     (if prog_state s \<noteq> PROG_STATE_READFLASH \<and> prog_state s \<noteq> PROG_STATE_READEEPROM
      then (0xff, [], s)
      else
        (let r = read_loop p (unat len) s;
             s1 = (if len < 8 then (snd r)\<lparr>prog_state := PROG_STATE_IDLE\<rparr> else snd r)
         in (len, fst r, s1)))"

section \<open>The command dispatcher of the later revision\<close>

text \<open>\<open>(data[hi] << 8) | data[lo]\<close> is computed in \<open>int\<close>, which has 16 bits here.\<close>

definition int_of_bytes :: "uchar \<Rightarrow> uchar \<Rightarrow> uint" where
  "int_of_bytes hi lo = push_bit 8 (ucast hi) OR ucast lo"

text \<open>\<open>prog_address = (data[3] << 8) | data[2]\<close>: the 16-bit \<open>int\<close> is converted to
  \<open>unsigned long\<close>, which extends its sign.\<close>

definition legacy_address :: "setup_data \<Rightarrow> 32 word" where
  "legacy_address d = scast (int_of_bytes (data3 d) (data2 d))"

text \<open>\<open>prog_nbytes = (data[7] << 8) | data[6]\<close>: the \<open>int\<close> is converted to
  \<open>unsigned int\<close>, of the same width.\<close>

definition nbytes_field :: "setup_data \<Rightarrow> uint" where
  "nbytes_field d = int_of_bytes (data7 d) (data6 d)"

text \<open>\<open>*((unsigned long*) &data[2])\<close> on a little-endian machine.\<close>

definition long_address :: "setup_data \<Rightarrow> 32 word" where
  "long_address d =
     ucast (data2 d) OR push_bit 8 (ucast (data3 d))
       OR push_bit 16 (ucast (data4 d)) OR push_bit 24 (ucast (data5 d))"

text \<open>\<open>keyReport[key]\<close>, a table of two rows in program memory; a larger index reads
  the program memory behind it.\<close>

definition keyReport :: "'w target_port \<Rightarrow> uchar \<Rightarrow> uchar list" where
  "keyReport p key =
     (if key = 0 then [0, 0]
      else if key = 1 then [0, KEY_ENTER]
      else [pgm_past_keyReport p (2 * unat key - 4), pgm_past_keyReport p (2 * unat key - 3)])"

definition buildReport :: "'w target_port \<Rightarrow> uchar \<Rightarrow> 'w session \<Rightarrow> 'w session" where
  "buildReport p key s = s\<lparr>reportBuffer := keyReport p key\<rparr>"

text \<open>Lines 102 to 114 of \<open>usbFunctionSetup\<close>: the requests of the keyboard class.
  \<open>Some\<close> is a \<open>return\<close> out of the function, \<open>None\<close> is control reaching line 116.\<close>

definition hid_class_request ::
  "platform \<Rightarrow> 'w target_port \<Rightarrow> setup_data \<Rightarrow> 'w session \<Rightarrow> (uchar \<times> 'w session) option" where
  "hid_class_request k p d s =
     (if bmRequestType d AND USBRQ_TYPE_MASK k = USBRQ_TYPE_CLASS k then
        (if bRequest d = USBRQ_HID_GET_REPORT k then Some (2, buildReport p (lastKey s) s)
         else if bRequest d = USBRQ_HID_GET_IDLE k then Some (1, s\<lparr>usbMsgPtr := Msg_idleRate\<rparr>)
         else if bRequest d = USBRQ_HID_SET_IDLE k then Some (1, s\<lparr>idleRate := data3 d\<rparr>)
         else None)
      else None)"

text \<open>\<open>replyBuffer[i] = ispTransmit(b)\<close>.\<close>

definition transmit_into :: "'w target_port \<Rightarrow> nat \<Rightarrow> uchar \<Rightarrow> 'w session \<Rightarrow> 'w session" where
  "transmit_into p i b s =
     (isp_call (IspTransmit b) s)\<lparr>replyBuffer := (replyBuffer s)[i := ispTransmit_ret p (isp_log s) b]\<rparr>"

text \<open>\<open>if (!prog_address_newmode) prog_address = (data[3] << 8) | data[2]\<close>.\<close>

definition set_address :: "setup_data \<Rightarrow> 32 word session \<Rightarrow> 32 word session" where
  "set_address d s =
     (if prog_address_newmode s = 0 then s\<lparr>prog_address := legacy_address d\<rparr> else s)"

text \<open>Lines 116 to 203: the commands of the programmer, as the pair of \<open>len\<close> and the
  variables.\<close>

definition usbasp_request ::
  "platform \<Rightarrow> 32 word target_port \<Rightarrow> setup_data \<Rightarrow> 32 word session \<Rightarrow> uchar \<times> 32 word session" where
  "usbasp_request k p d s =
     (if bRequest d = USBASP_FUNC_CONNECT then
        (let s1 = (if PINC p (isp_log s) AND push_bit (PC2 k) 1 = 0
                   then isp_call (IspSetSCKOption (USBASP_ISP_SCK_8 k)) s
                   else isp_call (IspSetSCKOption (prog_sck s)) s);
             s2 = s1\<lparr>prog_address_newmode := 0\<rparr>;
             s3 = isp_call LedRedOn s2
         in (0, isp_call IspConnect s3))
      else if bRequest d = USBASP_FUNC_DISCONNECT then
        (0, isp_call LedRedOff (isp_call IspDisconnect s))
      else if bRequest d = USBASP_FUNC_TRANSMIT then
        (4, transmit_into p 3 (data5 d) (transmit_into p 2 (data4 d)
              (transmit_into p 1 (data3 d) (transmit_into p 0 (data2 d) s))))
      else if bRequest d = USBASP_FUNC_READFLASH then
        (0xff, (set_address d s)\<lparr>prog_nbytes := nbytes_field d,
                                 prog_state := PROG_STATE_READFLASH\<rparr>)
      else if bRequest d = USBASP_FUNC_READEEPROM then
        (0xff, (set_address d s)\<lparr>prog_nbytes := nbytes_field d,
                                 prog_state := PROG_STATE_READEEPROM\<rparr>)
      else if bRequest d = USBASP_FUNC_ENABLEPROG then
        (1, (isp_call IspEnterProgrammingMode s)
              \<lparr>replyBuffer := (replyBuffer s)[0 := ispEnterProgrammingMode_ret p (isp_log s)]\<rparr>)
      else if bRequest d = USBASP_FUNC_WRITEFLASH then
        (let s1 = set_address d s;
             s2 = s1\<lparr>prog_pagesize := ucast (data4 d)\<rparr>;
             s3 = s2\<lparr>prog_blockflags := data5 d AND 0x0F\<rparr>;
             s4 = s3\<lparr>prog_pagesize := prog_pagesize s3 + push_bit 4 (ucast (data5 d) AND 0xF0)\<rparr>;
             s5 = (if prog_blockflags s4 AND PROG_BLOCKFLAG_FIRST \<noteq> 0
                   then s4\<lparr>prog_pagecounter := ucast (prog_pagesize s4)\<rparr>
                   else s4)
         in (0xff, s5\<lparr>prog_nbytes := nbytes_field d, prog_state := PROG_STATE_WRITEFLASH\<rparr>))
      else if bRequest d = USBASP_FUNC_WRITEEEPROM then
        (0xff, (set_address d s)\<lparr>prog_pagesize := 0, prog_blockflags := 0,
                                 prog_nbytes := nbytes_field d,
                                 prog_state := PROG_STATE_WRITEEEPROM\<rparr>)
      else if bRequest d = USBASP_FUNC_SETLONGADDRESS then
        (0, s\<lparr>prog_address_newmode := 1, prog_address := long_address d\<rparr>)
      else if bRequest d = USBASP_FUNC_SETISPSCK then
        (1, s\<lparr>prog_sck := data2 d, replyBuffer := (replyBuffer s)[0 := 0]\<rparr>)
      else (0, s))"

text \<open>\<open>usbFunctionSetup(data)\<close>: the returned byte and the variables afterwards.\<close>

definition usbFunctionSetup ::
  "platform \<Rightarrow> 32 word target_port \<Rightarrow> setup_data \<Rightarrow> 32 word session \<Rightarrow> uchar \<times> 32 word session" where
  "usbFunctionSetup k p d s =
     (case hid_class_request k p d s of
        Some r \<Rightarrow> r
      | None \<Rightarrow>
          (let r = usbasp_request k p d s
           in (fst r, (snd r)\<lparr>usbMsgPtr := Msg_replyBuffer\<rparr>)))"

section \<open>The transport, as far as the properties need it\<close>

text \<open>The variables after the loop of \<open>usbFunctionWrite\<close> has consumed the bytes
  \<open>bs\<close>.\<close>

definition write_bytes :: "uchar list \<Rightarrow> 'a::len word session \<Rightarrow> 'a word session" where
  "write_bytes bs s = snd (fold write_iter bs (0, s))"

text \<open>The USB driver hands a transfer to \<open>usbFunctionWrite\<close> in chunks, each with
  its length. \<open>write_chunks\<close> makes these calls in order and collects the returned
  bytes.\<close>

fun write_chunks ::
  "uchar list list \<Rightarrow> 'a::len word session \<Rightarrow> (uchar list \<times> 'a word session) option" where
  "write_chunks [] s = Some ([], s)"
| "write_chunks (c # cs) s =
     (case usbFunctionWrite c (of_nat (length c)) s of
        None \<Rightarrow> None
      | Some r \<Rightarrow>
          (case write_chunks cs (snd r) of
             None \<Rightarrow> None
           | Some rs \<Rightarrow> Some (fst r # fst rs, snd rs)))"

text \<open>The same for \<open>usbFunctionRead\<close>, from the requested lengths: what each call
  returned and stored, and the variables at the end.\<close>

fun read_chunks ::
  "'a::len word target_port \<Rightarrow> uchar list \<Rightarrow> 'a word session
     \<Rightarrow> (uchar \<times> uchar list) list \<times> 'a word session" where
  "read_chunks p [] s = ([], s)"
| "read_chunks p (len # lens) s =
     (let r = usbFunctionRead p len s;
          rs = read_chunks p lens (snd (snd r))
      in ((fst r, fst (snd r)) # fst rs, snd rs))"

text \<open>Any sequence of calls of the three entry points by the driver.\<close>

datatype driver_call = Setup setup_data | Read uchar | Write "uchar list" uchar

fun usb_call ::
  "platform \<Rightarrow> 32 word target_port \<Rightarrow> driver_call \<Rightarrow> 32 word session \<Rightarrow> 32 word session option" where
  "usb_call k p (Setup d) s = Some (snd (usbFunctionSetup k p d s))"
| "usb_call k p (Read len) s = Some (snd (snd (usbFunctionRead p len s)))"
| "usb_call k p (Write data len) s = map_option snd (usbFunctionWrite data len s)"

fun usb_calls ::
  "platform \<Rightarrow> 32 word target_port \<Rightarrow> driver_call list \<Rightarrow> 32 word session \<Rightarrow> 32 word session option" where
  "usb_calls k p [] s = Some s"
| "usb_calls k p (c # cs) s =
     (case usb_call k p c s of None \<Rightarrow> None | Some s1 \<Rightarrow> usb_calls k p cs s1)"

section \<open>What the properties speak of\<close>

text \<open>The addresses of the byte transfers in a history of port calls: of every byte read
  from and every byte written to the flash or the EEPROM.\<close>

fun transfer_addrs :: "'w isp_call list \<Rightarrow> 'w list" where
  "transfer_addrs [] = []"
| "transfer_addrs (IspReadFlash a # cs) = a # transfer_addrs cs"
| "transfer_addrs (IspReadEEPROM a # cs) = a # transfer_addrs cs"
| "transfer_addrs (IspWriteFlash a b m # cs) = a # transfer_addrs cs"
| "transfer_addrs (IspWriteEEPROM a b # cs) = a # transfer_addrs cs"
| "transfer_addrs (c # cs) = transfer_addrs cs"

text \<open>The page flushes in a history of port calls.\<close>

fun flushes :: "'w isp_call list \<Rightarrow> 'w isp_call list" where
  "flushes [] = []"
| "flushes (IspFlushPage a b # cs) = IspFlushPage a b # flushes cs"
| "flushes (c # cs) = flushes cs"

text \<open>The writes to the EEPROM in a history of port calls.\<close>

fun eeprom_writes :: "'w isp_call list \<Rightarrow> 'w isp_call list" where
  "eeprom_writes [] = []"
| "eeprom_writes (IspWriteEEPROM a b # cs) = IspWriteEEPROM a b # eeprom_writes cs"
| "eeprom_writes (c # cs) = eeprom_writes cs"

text \<open>The writes to the flash in a history of port calls.\<close>

fun flash_writes :: "'w isp_call list \<Rightarrow> 'w isp_call list" where
  "flash_writes [] = []"
| "flash_writes (IspWriteFlash a b m # cs) = IspWriteFlash a b m # flash_writes cs"
| "flash_writes (c # cs) = flash_writes cs"

text \<open>The port calls made between a state \<open>s\<close> and a later state \<open>s'\<close>, and the
  number of bytes transferred between them.\<close>

definition calls_since :: "'w session \<Rightarrow> 'w session \<Rightarrow> 'w isp_call list" where
  "calls_since s s' = drop (length (isp_log s)) (isp_log s')"

definition bytes_transferred :: "'w session \<Rightarrow> 'w session \<Rightarrow> nat" where
  "bytes_transferred s s' = length (transfer_addrs (calls_since s s'))"

text \<open>Address continuity between \<open>s\<close> and \<open>s'\<close>: the history has only grown, the
  bytes transferred since \<open>s\<close> went to the addresses \<open>prog_address s\<close>,
  \<open>prog_address s + 1\<close>, ... in this order, and \<open>prog_address\<close> is now the address
  in \<open>s\<close> plus their number.\<close>

definition address_continuous :: "'a::len word session \<Rightarrow> 'a word session \<Rightarrow> bool" where
  "address_continuous s s' =
     (take (length (isp_log s)) (isp_log s') = isp_log s
      \<and> transfer_addrs (calls_since s s')
          = map (\<lambda>i. prog_address s + of_nat i) [0..<bytes_transferred s s']
      \<and> prog_address s' = prog_address s + of_nat (bytes_transferred s s'))"

text \<open>The calls of a paged flash write of the bytes \<open>bs\<close> from the address \<open>a\<close> that
  flushes after every \<open>q\<close> bytes: each byte is written without commit, and the last
  byte of every run of \<open>q\<close> is followed by a flush at its address.\<close>

definition paged_calls :: "'a::len word \<Rightarrow> nat \<Rightarrow> uchar list \<Rightarrow> 'a word isp_call list" where
  "paged_calls a q bs =
     concat (map (\<lambda>i. IspWriteFlash (a + of_nat i) (bs ! i) 0
                        # (if Suc i mod q = 0 then [IspFlushPage (a + of_nat i) (bs ! i)] else []))
                 [0..<length bs])"

text \<open>The period of the natural flushes for a page size: the page size as the 8-bit
  counter holds it, where the value 0 counts down through 256 steps.\<close>

definition flush_period :: "uint \<Rightarrow> nat" where
  "flush_period P = (if unat P mod 256 = 0 then 256 else unat P mod 256)"

section \<open>Concrete inputs\<close>

text \<open>The inputs at which the theorems below are exercised. \<open>vusb\<close> gives the
  platform constants the values the USB driver and the register header use;
  \<open>erased_target\<close> is a target with erased memories whose speed strap is open;
  \<open>power_up\<close> holds the initial values of the variables; \<open>vendor_cmd\<close> builds a
  command packet of the vendor type.\<close>

definition vusb :: platform where
  "vusb = \<lparr>USBRQ_TYPE_MASK = 0x60, USBRQ_TYPE_CLASS = 0x20, USBRQ_HID_GET_REPORT = 0x01,
           USBRQ_HID_GET_IDLE = 0x02, USBRQ_HID_SET_IDLE = 0x0a, USBASP_ISP_SCK_8 = 5,
           PC2 = 2\<rparr>"

definition erased_target :: "'w target_port" where
  "erased_target =
     \<lparr>ispTransmit_ret = (\<lambda>h b. 0), ispEnterProgrammingMode_ret = (\<lambda>h. 0),
      ispReadFlash_ret = (\<lambda>h a. 0xff), ispReadEEPROM_ret = (\<lambda>h a. 0xff),
      PINC = (\<lambda>h. 0xff), pgm_past_keyReport = (\<lambda>n. 0)\<rparr>"

definition power_up :: "'a::len word session" where
  "power_up =
     \<lparr>replyBuffer = [0, 0, 0, 0, 0, 0, 0, 0], prog_state = PROG_STATE_IDLE, prog_sck = 0,
      prog_address_newmode = 0, prog_address = 0, prog_nbytes = 0, prog_pagesize = 0,
      prog_blockflags = 0, prog_pagecounter = 0, reportBuffer = [0, 0], idleRate = 0,
      lastKey = 0, usbMsgPtr = Msg_unset, isp_log = []\<rparr>"

definition vendor_cmd ::
  "uchar \<Rightarrow> uchar \<Rightarrow> uchar \<Rightarrow> uchar \<Rightarrow> uchar \<Rightarrow> uchar \<Rightarrow> uchar \<Rightarrow> setup_data" where
  "vendor_cmd req b2 b3 b4 b5 b6 b7 =
     \<lparr>data0 = 0x40, data1 = req, data2 = b2, data3 = b3, data4 = b4, data5 = b5,
      data6 = b6, data7 = b7\<rparr>"

text \<open>The bytes 0, 1, 2, ... as test data.\<close>

definition count_bytes :: "nat \<Rightarrow> uchar list" where
  "count_bytes n = map of_nat [0..<n]"

definition read_armed :: "32 word session" where
  "read_armed = snd (usbFunctionSetup vusb erased_target
                       (vendor_cmd USBASP_FUNC_READFLASH 0 0 0 0 16 0) power_up)"

definition write_armed :: "32 word session" where
  "write_armed = snd (usbFunctionSetup vusb erased_target
                        (vendor_cmd USBASP_FUNC_WRITEFLASH 0 0 0 0 3 0) power_up)"

definition write_armed_zero :: "32 word session" where
  "write_armed_zero = snd (usbFunctionSetup vusb erased_target
                             (vendor_cmd USBASP_FUNC_WRITEFLASH 0 0 0 0 0 0) power_up)"

text \<open>A session from power-up: a SetExtendedAddress command for the address
  \<open>0x12345\<close>, a WriteProgramMemory command whose bytes 2 and 3 are \<open>0x00\<close> and
  \<open>0x80\<close>, a Connect command, and the same WriteProgramMemory command again.\<close>

definition long_latched :: "32 word session" where
  "long_latched = snd (usbFunctionSetup vusb erased_target
                         (vendor_cmd USBASP_FUNC_SETLONGADDRESS 0x45 0x23 0x01 0 0 0) power_up)"

definition long_armed :: "32 word session" where
  "long_armed = snd (usbFunctionSetup vusb erased_target
                       (vendor_cmd USBASP_FUNC_WRITEFLASH 0x00 0x80 0 0 0 0) long_latched)"

definition reconnected :: "32 word session" where
  "reconnected = snd (usbFunctionSetup vusb erased_target
                        (vendor_cmd USBASP_FUNC_CONNECT 0 0 0 0 0 0) long_armed)"

definition legacy_armed :: "32 word session" where
  "legacy_armed = snd (usbFunctionSetup vusb erased_target
                         (vendor_cmd USBASP_FUNC_WRITEFLASH 0x00 0x80 0 0 0 0) reconnected)"

section \<open>Arithmetic of the counters\<close>

lemma flush_period_bounds: "0 < flush_period P" "flush_period P \<le> 256"
  by (simp_all add: flush_period_def) 

lemma of_nat_flush_period: "(of_nat (flush_period P) :: uchar) = ucast P"
proof -
  have u: "unat (ucast P :: uchar) = unat P mod 256"
    by (simp add: unsigned_ucast_eq take_bit_eq_mod)
  show ?thesis
  proof (cases "unat P mod 256 = 0")
    case True
    with u have "unat (ucast P :: uchar) = 0" by simp
    then have "(ucast P :: uchar) = 0" by (simp only: unat_eq_0)
    with True show ?thesis by (simp add: flush_period_def)
  next
    case False
    have "(of_nat (unat (ucast P :: uchar)) :: uchar) = ucast P" by simp
    with u False show ?thesis by (simp add: flush_period_def)
  qed
qed

lemma uchar_of_nat_eq_0: "n \<le> 256 \<Longrightarrow> ((of_nat n :: uchar) = 0) = (n = 0 \<or> n = 256)"
proof -
  assume "n \<le> 256"
  have "((of_nat n :: uchar) = of_nat 0) = (n mod 256 = 0)"
    by (simp only: word_of_nat_eq_iff take_bit_eq_mod) simp
  with \<open>n \<le> 256\<close> show ?thesis by auto
qed

lemma countdown_zero:
  assumes "0 < q" "q \<le> 256"
  shows "((of_nat (q - n mod q) :: uchar) - 1 = 0) = (Suc n mod q = 0)"
proof -
  have lt: "n mod q < q" using assms by simp
  then have "(of_nat (q - n mod q) :: uchar) - 1 = of_nat (q - n mod q - 1)"
    by (simp add: of_nat_diff)
  moreover have "q - n mod q - 1 \<le> 256" using assms by simp
  moreover have "q - n mod q - 1 \<noteq> 256" using assms by arith
  ultimately have "((of_nat (q - n mod q) :: uchar) - 1 = 0) = (q - n mod q - 1 = 0)"
    by (simp add: uchar_of_nat_eq_0)
  also have "\<dots> = (Suc n mod q = 0)"
    using lt by (auto simp: mod_Suc)
  finally show ?thesis .
qed

lemma countdown_step:
  assumes "0 < q" "Suc n mod q \<noteq> 0"
  shows "(of_nat (q - n mod q) :: uchar) - 1 = of_nat (q - Suc n mod q)"
proof -
  have lt: "n mod q < q" using assms by simp
  have "Suc n mod q = Suc (n mod q)" using assms by (auto simp: mod_Suc split: if_splits)
  moreover have "(of_nat (q - n mod q) :: uchar) - 1 = of_nat (q - n mod q - 1)"
    using lt by (simp add: of_nat_diff)
  ultimately show ?thesis by simp
qed

lemma unat_nbytes_sub: "n \<le> unat (N :: uint) \<Longrightarrow> unat (N - of_nat n) = unat N - n"
proof -
  assume a: "n \<le> unat N"
  have "unat N < 2 ^ LENGTH(16)" by (rule unsigned_less)
  then have "unat N < 65536" by simp
  with a have "n < 65536" by simp
  then have "unat (of_nat n :: uint) = n" by (simp add: unat_of_nat)
  moreover from this a have "(of_nat n :: uint) \<le> N" by (simp add: word_le_nat_alt)
  ultimately show ?thesis by (simp add: unat_sub)
qed

lemma nbytes_not_zero:
  "n < unat (N :: uint) \<Longrightarrow> N - of_nat n \<noteq> 0"
proof
  assume a: "n < unat N" and "N - of_nat n = 0"
  then have "unat (N - of_nat n) = 0" by simp
  with a unat_nbytes_sub [of n N] show False by simp
qed

section \<open>The loop of the writer, byte by byte\<close>


lemma snd_write_iter: "snd (write_iter b (r, s)) = snd (write_iter b (r', s))"
  by (simp add: write_iter_def write_count_def Let_def)

lemma snd_fold_write_iter: "snd (fold write_iter bs (r, s)) = snd (fold write_iter bs (r', s))"
proof (induction bs arbitrary: r r' s)
  case Nil
  show ?case by simp
next
  case (Cons b bs)
  obtain r1 s1 where a: "write_iter b (r, s) = (r1, s1)" by (cases "write_iter b (r, s)")
  obtain r2 s2 where b: "write_iter b (r', s) = (r2, s2)" by (cases "write_iter b (r', s)")
  from a b snd_write_iter [of b r s r'] have "s1 = s2" by simp
  with a b Cons.IH [of r1 s1 r2] show ?case by simp
qed

lemma write_bytes_Nil: "write_bytes [] s = s"
  by (simp add: write_bytes_def)

lemma write_bytes_append: "write_bytes (xs @ ys) s = write_bytes ys (write_bytes xs s)"
proof -
  obtain r1 s1 where a: "fold write_iter xs (0, s) = (r1, s1)" by (cases "fold write_iter xs (0, s)")
  show ?thesis using a snd_fold_write_iter [of ys r1 s1 0]
    by (simp add: write_bytes_def)
qed

lemma write_bytes_snoc: "write_bytes (xs @ [b]) s = snd (write_iter b (0, write_bytes xs s))"
  by (simp add: write_bytes_append) (simp add: write_bytes_def)

lemma paged_calls_snoc:
  "paged_calls a q (bs @ [b]) = paged_calls a q bs @
     IspWriteFlash (a + of_nat (length bs)) b 0
       # (if Suc (length bs) mod q = 0 then [IspFlushPage (a + of_nat (length bs)) b] else [])"
proof -
  have eq: "map (\<lambda>i. IspWriteFlash (a + of_nat i) ((bs @ [b]) ! i) 0
                # (if Suc i mod q = 0 then [IspFlushPage (a + of_nat i) ((bs @ [b]) ! i)] else []))
            [0..<length bs]
      = map (\<lambda>i. IspWriteFlash (a + of_nat i) (bs ! i) 0
                # (if Suc i mod q = 0 then [IspFlushPage (a + of_nat i) (bs ! i)] else []))
            [0..<length bs]"
    by (rule map_cong) (simp_all add: nth_append)
  show ?thesis
    by (simp add: paged_calls_def eq)
qed

lemma paged_run:
  fixes s :: "'a::len word session"
  assumes st: "prog_state s = PROG_STATE_WRITEFLASH"
      and pg: "prog_pagesize s \<noteq> 0"
      and pc: "prog_pagecounter s = ucast (prog_pagesize s)"
  shows "length bs < unat (prog_nbytes s) \<Longrightarrow>
     write_bytes bs s =
       s\<lparr>prog_address := prog_address s + of_nat (length bs),
         prog_nbytes := prog_nbytes s - of_nat (length bs),
         prog_pagecounter := of_nat (flush_period (prog_pagesize s)
                                       - length bs mod flush_period (prog_pagesize s)),
         isp_log := isp_log s @ paged_calls (prog_address s) (flush_period (prog_pagesize s)) bs\<rparr>"
proof (induction bs rule: rev_induct)
  case Nil
  show ?case by (simp add: write_bytes_Nil paged_calls_def of_nat_flush_period pc)
next
  case (snoc b bs)
  let ?q = "flush_period (prog_pagesize s)"
  have q: "0 < ?q" "?q \<le> 256" by (rule flush_period_bounds)+
  have nz: "prog_nbytes s - of_nat (length bs) - 1 \<noteq> 0"
    using nbytes_not_zero [of "Suc (length bs)" "prog_nbytes s"] snoc.prems by (simp add: algebra_simps)
  have ih: "write_bytes bs s =
       s\<lparr>prog_address := prog_address s + of_nat (length bs),
         prog_nbytes := prog_nbytes s - of_nat (length bs),
         prog_pagecounter := of_nat (?q - length bs mod ?q),
         isp_log := isp_log s @ paged_calls (prog_address s) ?q bs\<rparr>"
    using snoc by simp
  show ?case
  proof (cases "Suc (length bs) mod ?q = 0")
    case True
    then show ?thesis
      using nz st pg countdown_zero [OF q, of "length bs"] of_nat_flush_period [of "prog_pagesize s"]
      by (simp add: write_bytes_snoc ih write_iter_def write_count_def write_store_def isp_call_def
          Let_def paged_calls_snoc algebra_simps)
  next
    case False
    then show ?thesis
      using nz st pg countdown_zero [OF q, of "length bs"] countdown_step [OF q(1) False]
      by (simp add: write_bytes_snoc ih write_iter_def write_count_def write_store_def isp_call_def
          Let_def paged_calls_snoc algebra_simps)
  qed
qed


lemma write_iter_fields:
  "prog_nbytes (snd (write_iter b rs)) = prog_nbytes (snd rs) - 1"
  "prog_address (snd (write_iter b rs)) = prog_address (snd rs) + 1"
  "prog_pagesize (snd (write_iter b rs)) = prog_pagesize (snd rs)"
  "prog_blockflags (snd (write_iter b rs)) = prog_blockflags (snd rs)"
  "prog_address_newmode (snd (write_iter b rs)) = prog_address_newmode (snd rs)"
  by (simp_all add: write_iter_def write_count_def write_store_def isp_call_def Let_def)

lemma write_iter_state:
  "prog_state (snd (write_iter b rs)) =
     (if prog_nbytes (snd rs) = 1 then PROG_STATE_IDLE else prog_state (snd rs))"
  by (simp add: write_iter_def write_count_def write_store_def isp_call_def Let_def)

lemma write_bytes_fields:
  "prog_nbytes (write_bytes bs s) = prog_nbytes s - of_nat (length bs)"
  "prog_address (write_bytes bs s) = prog_address s + of_nat (length bs)"
  "prog_pagesize (write_bytes bs s) = prog_pagesize s"
  "prog_blockflags (write_bytes bs s) = prog_blockflags s"
  "prog_address_newmode (write_bytes bs s) = prog_address_newmode s"
  by (induction bs rule: rev_induct)
     (simp_all add: write_bytes_Nil write_bytes_snoc write_iter_fields)

lemma write_bytes_state_keep:
  "length bs < unat (prog_nbytes s) \<Longrightarrow> prog_state (write_bytes bs s) = prog_state s"
proof (induction bs rule: rev_induct)
  case Nil
  show ?case by (simp add: write_bytes_Nil)
next
  case (snoc b bs)
  have "prog_nbytes s - of_nat (Suc (length bs)) \<noteq> 0"
    using snoc.prems by (intro nbytes_not_zero) simp
  then have "prog_nbytes s - of_nat (length bs) \<noteq> 1"
    by (auto simp: algebra_simps)
  with snoc show ?case
    by (simp add: write_bytes_snoc write_iter_state write_bytes_fields)
qed

lemma usbFunctionWrite_accept:
  assumes "prog_state s = PROG_STATE_WRITEFLASH \<or> prog_state s = PROG_STATE_WRITEEEPROM"
      and "length c < 256"
  shows "usbFunctionWrite c (of_nat (length c)) s = Some (fold write_iter c (0, s))"
proof -
  have "unat (of_nat (length c) :: uchar) = length c"
    using assms(2) by (simp add: unat_of_nat)
  with assms(1) show ?thesis
    by (auto simp: usbFunctionWrite_def)
qed

lemma usbFunctionWrite_Nil: "\<exists>r. usbFunctionWrite [] (of_nat (length ([]::uchar list))) s = Some (r, s)"
  by (simp add: usbFunctionWrite_def)

lemma write_chunks_empty:
  "concat cs = [] \<Longrightarrow> \<exists>rs. write_chunks cs s = Some (rs, s)"
proof (induction cs)
  case Nil
  show ?case by simp
next
  case (Cons c cs)
  then have c: "c = []" and "concat cs = []" by simp_all
  then obtain rs where rs: "write_chunks cs s = Some (rs, s)" using Cons.IH by blast
  obtain r where "usbFunctionWrite c (of_nat (length c)) s = Some (r, s)"
    using usbFunctionWrite_Nil [of s] c by auto
  with rs show ?case by simp
qed

lemma write_chunks_declared:
  assumes "\<forall>c\<in>set cs. length c < 256"
      and "prog_state s = PROG_STATE_WRITEFLASH \<or> prog_state s = PROG_STATE_WRITEEEPROM"
      and "length (concat cs) \<le> unat (prog_nbytes s)"
  shows "\<exists>rs. write_chunks cs s = Some (rs, write_bytes (concat cs) s)"
  using assms
proof (induction cs arbitrary: s)
  case Nil
  show ?case by (simp add: write_bytes_Nil)
next
  case (Cons c cs)
  have len: "length c < 256" using Cons.prems(1) by simp
  have acc: "usbFunctionWrite c (of_nat (length c)) s = Some (fold write_iter c (0, s))"
    using Cons.prems(2) len by (rule usbFunctionWrite_accept)
  have s1: "snd (fold write_iter c (0, s)) = write_bytes c s"
    by (simp add: write_bytes_def)
  show ?case
  proof (cases "length c < unat (prog_nbytes s)")
    case True
    have "prog_state (write_bytes c s) = prog_state s"
      using True by (rule write_bytes_state_keep)
    then have p2: "prog_state (write_bytes c s) = PROG_STATE_WRITEFLASH
        \<or> prog_state (write_bytes c s) = PROG_STATE_WRITEEEPROM"
      using Cons.prems(2) by simp
    have "unat (prog_nbytes (write_bytes c s)) = unat (prog_nbytes s) - length c"
      using True by (simp add: write_bytes_fields unat_nbytes_sub)
    then have p3: "length (concat cs) \<le> unat (prog_nbytes (write_bytes c s))"
      using Cons.prems(3) by simp
    have p1: "\<forall>c\<in>set cs. length c < 256" using Cons.prems(1) by simp
    obtain rs where "write_chunks cs (write_bytes c s)
          = Some (rs, write_bytes (concat cs) (write_bytes c s))"
      using Cons.IH [OF p1 p2 p3] by blast
    then show ?thesis
      by (simp add: acc s1 write_bytes_append)
  next
    case False
    then have "length (concat cs) = 0" using Cons.prems(3) by (simp del: length_concat length_0_conv)
    then have e: "concat cs = []" by (simp only: length_0_conv)
    then obtain rs where "write_chunks cs (write_bytes c s) = Some (rs, write_bytes c s)"
      using write_chunks_empty by blast
    then show ?thesis
      by (simp add: acc s1 e)
  qed
qed

lemma forced_guard:
  assumes "P \<noteq> 0" "m < flush_period P"
  shows "((ucast (of_nat (flush_period P - m) :: uchar) :: uint) \<noteq> P)
           = (256 \<le> unat P \<or> m \<noteq> 0)"
proof (cases "256 \<le> unat P")
  case True
  have "unat (of_nat (flush_period P - m) :: uchar) < 2 ^ LENGTH(8)"
    by (rule unsigned_less)
  then have "unat (ucast (of_nat (flush_period P - m) :: uchar) :: uint) < 256"
    by (simp add: unsigned_ucast_eq take_bit_eq_mod)
  with True show ?thesis by auto
next
  case False
  then have q: "flush_period P = unat P"
    using assms(1) by (auto simp: flush_period_def unat_eq_0)
  have "unat (ucast (of_nat (unat P - m) :: uchar) :: uint) = unat P - m"
    using False by (simp add: unsigned_ucast_eq unat_of_nat take_bit_eq_mod)
  then have "((ucast (of_nat (unat P - m) :: uchar) :: uint) = P) = (unat P - m = unat P)"
    by (metis word_unat_eq_iff)
  with False assms(2) q show ?thesis by auto
qed

lemma paged_transfer:
  fixes s :: "'a::len word session"
  assumes st: "prog_state s = PROG_STATE_WRITEFLASH"
      and pg: "prog_pagesize s \<noteq> 0"
      and pc: "prog_pagecounter s = ucast (prog_pagesize s)"
      and len: "length bs = unat (prog_nbytes s)" "bs \<noteq> []"
  shows "write_bytes bs s =
       s\<lparr>prog_state := PROG_STATE_IDLE,
         prog_address := prog_address s + of_nat (length bs),
         prog_nbytes := 0,
         prog_pagecounter := of_nat (flush_period (prog_pagesize s)
                                       - length bs mod flush_period (prog_pagesize s)),
         isp_log := isp_log s @ paged_calls (prog_address s) (flush_period (prog_pagesize s)) bs
            @ (if prog_blockflags s AND PROG_BLOCKFLAG_LAST \<noteq> 0
                  \<and> (256 \<le> unat (prog_pagesize s)
                       \<or> length bs mod flush_period (prog_pagesize s) \<noteq> 0)
               then [IspFlushPage (prog_address s + of_nat (length bs - 1)) (last bs)]
               else [])\<rparr>"
proof -
  let ?q = "flush_period (prog_pagesize s)"
  let ?xs = "butlast bs" and ?b = "last bs"
  have bs: "bs = ?xs @ [?b]" using len(2) by simp
  have n: "Suc (length ?xs) = length bs" using len(2) by simp
  have q: "0 < ?q" "?q \<le> 256" by (rule flush_period_bounds)+
  have "length ?xs < unat (prog_nbytes s)" using n len(1) by linarith
  note run = paged_run [OF st pg pc this]
  have "prog_nbytes s = of_nat (length bs)" using len(1) by simp
  then have z: "prog_nbytes s - of_nat (length ?xs) - 1 = 0"
    using n by (metis add_diff_cancel_left' diff_diff_add of_nat_Suc word_arith_nat_add
        add.commute diff_add_cancel diff_self)
  have g: "((ucast (of_nat (?q - length bs mod ?q) :: uchar) :: uint) \<noteq> prog_pagesize s)
           = (256 \<le> unat (prog_pagesize s) \<or> length bs mod ?q \<noteq> 0)"
    using pg q by (intro forced_guard) simp_all
  have pcs: "(of_nat ?q :: uchar) = ucast (prog_pagesize s)" by (rule of_nat_flush_period)
  have w: "write_bytes bs s = snd (write_iter ?b (0, write_bytes ?xs s))"
    using write_bytes_snoc [of ?xs ?b s] bs by simp
  show ?thesis
  proof (cases "length bs mod ?q = 0")
    case True
    then have T: "Suc (length ?xs) mod ?q = 0" using n by simp
    have ps: "paged_calls (prog_address s) ?q bs = paged_calls (prog_address s) ?q ?xs @
       [IspWriteFlash (prog_address s + of_nat (length ?xs)) ?b 0,
        IspFlushPage (prog_address s + of_nat (length ?xs)) ?b]"
      using paged_calls_snoc [of "prog_address s" ?q ?xs ?b] bs T by simp
    have l: "length bs - 1 = length ?xs" by simp
    have nn: "of_nat (length bs) = (of_nat (length ?xs) :: 'a word) + 1"
             "of_nat (length bs) = (of_nat (length ?xs) :: uint) + 1"
      using n by (metis of_nat_Suc add.commute)+
    show ?thesis
      unfolding w run ps l nn
      using z st pg True T g pcs countdown_zero [OF q, of "length ?xs"]
      by (simp add: write_iter_def write_count_def write_store_def isp_call_def
          Let_def algebra_simps)
  next
    case False
    then have F: "Suc (length ?xs) mod ?q \<noteq> 0" using n by simp
    have ps: "paged_calls (prog_address s) ?q bs = paged_calls (prog_address s) ?q ?xs @
       [IspWriteFlash (prog_address s + of_nat (length ?xs)) ?b 0]"
      using paged_calls_snoc [of "prog_address s" ?q ?xs ?b] bs F by simp
    have l: "length bs - 1 = length ?xs" by simp
    have nn: "of_nat (length bs) = (of_nat (length ?xs) :: 'a word) + 1"
             "of_nat (length bs) = (of_nat (length ?xs) :: uint) + 1"
      using n by (metis of_nat_Suc add.commute)+
    have cs: "(of_nat (?q - length ?xs mod ?q) :: uchar) - 1 = of_nat (?q - length bs mod ?q)"
      using countdown_step [OF q(1) F] n by simp
    show ?thesis
      unfolding w run ps l nn
      using z st pg False F g cs countdown_zero [OF q, of "length ?xs"]
      by (simp add: write_iter_def write_count_def write_store_def isp_call_def
          Let_def algebra_simps)
  qed
qed


lemma ucast_high_nibble: "(ucast (x :: uchar) AND 0xF0 :: uint) = ucast (x AND 0xF0)"
  by (simp add: unsigned_and_eq)

lemma flag_of_low_nibble: "((x :: uchar) AND 0x0F) AND PROG_BLOCKFLAG_FIRST = x AND PROG_BLOCKFLAG_FIRST"
  "((x :: uchar) AND 0x0F) AND PROG_BLOCKFLAG_LAST = x AND PROG_BLOCKFLAG_LAST"
  by (simp_all add: PROG_BLOCKFLAG_FIRST_def PROG_BLOCKFLAG_LAST_def and.assoc)

lemma usbasp_consts_distinct:
  "USBASP_FUNC_WRITEFLASH \<noteq> USBASP_FUNC_CONNECT"
  "USBASP_FUNC_WRITEFLASH \<noteq> USBASP_FUNC_DISCONNECT"
  "USBASP_FUNC_WRITEFLASH \<noteq> USBASP_FUNC_TRANSMIT"
  "USBASP_FUNC_WRITEFLASH \<noteq> USBASP_FUNC_READFLASH"
  "USBASP_FUNC_WRITEFLASH \<noteq> USBASP_FUNC_READEEPROM"
  "USBASP_FUNC_WRITEFLASH \<noteq> USBASP_FUNC_ENABLEPROG"
  by (simp_all add: USBASP_FUNC_CONNECT_def USBASP_FUNC_DISCONNECT_def USBASP_FUNC_TRANSMIT_def
      USBASP_FUNC_READFLASH_def USBASP_FUNC_READEEPROM_def USBASP_FUNC_ENABLEPROG_def
      USBASP_FUNC_WRITEFLASH_def)

lemma arm_writeflash:
  assumes "hid_class_request k p d s = None" "bRequest d = USBASP_FUNC_WRITEFLASH"
  shows "usbFunctionSetup k p d s =
    (0xff, s\<lparr>prog_state := PROG_STATE_WRITEFLASH,
             prog_address := (if prog_address_newmode s = 0 then legacy_address d else prog_address s),
             prog_nbytes := nbytes_field d,
             prog_pagesize := ucast (data4 d) + push_bit 4 (ucast (data5 d AND 0xF0)),
             prog_blockflags := data5 d AND 0x0F,
             prog_pagecounter := (if data5 d AND PROG_BLOCKFLAG_FIRST \<noteq> 0
                then ucast (ucast (data4 d) + push_bit 4 (ucast (data5 d AND 0xF0)) :: uint)
                else prog_pagecounter s),
             usbMsgPtr := Msg_replyBuffer\<rparr>)"
  using assms
  by (simp add: usbFunctionSetup_def usbasp_request_def usbasp_consts_distinct set_address_def
      Let_def ucast_high_nibble flag_of_low_nibble)

lemma flushes_append: "flushes (xs @ ys) = flushes xs @ flushes ys"
  by (induction xs rule: flushes.induct) simp_all

lemma flushes_concat_map:
  "flushes (concat (map f xs)) = concat (map (\<lambda>i. flushes (f i)) xs)"
  by (induction xs) (simp_all add: flushes_append)

lemma countdown_one:
  assumes "0 < q" "q \<le> 256"
  shows "((of_nat (q - n mod q) :: uchar) = 1) = (Suc n mod q = 0)"
  using countdown_zero [OF assms, of n] by simp

lemma concat_map_if:
  "concat (map (\<lambda>i. if P i then [f i] else []) xs) = map f (filter P xs)"
  by (induction xs) simp_all

lemma flush_offsets_256: "filter (\<lambda>i. i \<in> {63, 127, 191, 255}) [0..<256] = [63, 127, 191, 255::nat]"
  by code_simp

lemma paged_store:
  fixes s :: "'a::len word session"
  assumes st: "prog_state s = PROG_STATE_WRITEFLASH"
      and pg: "prog_pagesize s \<noteq> 0"
      and pc: "prog_pagecounter s = ucast (prog_pagesize s)"
      and len: "length xs < unat (prog_nbytes s)"
  shows "write_store b (write_bytes xs s) =
     (write_bytes xs s)
       \<lparr>prog_pagecounter := of_nat (flush_period (prog_pagesize s)
                                     - Suc (length xs) mod flush_period (prog_pagesize s)),
        isp_log := isp_log (write_bytes xs s) @
          IspWriteFlash (prog_address s + of_nat (length xs)) b 0
            # (if Suc (length xs) mod flush_period (prog_pagesize s) = 0
               then [IspFlushPage (prog_address s + of_nat (length xs)) b] else [])\<rparr>"
proof -
  let ?q = "flush_period (prog_pagesize s)"
  have q: "0 < ?q" "?q \<le> 256" by (rule flush_period_bounds)+
  note run = paged_run [OF st pg pc len]
  have pcs: "(of_nat ?q :: uchar) = ucast (prog_pagesize s)" by (rule of_nat_flush_period)
  show ?thesis
  proof (cases "Suc (length xs) mod ?q = 0")
    case True
    then show ?thesis
      unfolding run using st pg pcs countdown_one [OF q, of "length xs"]
      by (simp add: write_store_def isp_call_def Let_def)
  next
    case False
    then show ?thesis
      unfolding run using st pg countdown_one [OF q, of "length xs"] countdown_step [OF q(1) False]
      by (simp add: write_store_def isp_call_def Let_def)
  qed
qed

lemma flush_positions_64_all:
  "list_all (\<lambda>i. (Suc i mod 64 = 0) = (i \<in> {63, 127, 191, 255})) [0..<256]"
  by code_simp

lemma flush_positions_64:
  "i < 256 \<Longrightarrow> (Suc i mod 64 = 0) = (i \<in> {63, 127, 191, 255})"
  using flush_positions_64_all by (simp add: list_all_iff del: upt_rec_numeral)

lemma int_of_bytes_256: "int_of_bytes 1 0 = 256"
  by (simp add: int_of_bytes_def)

section \<open>Page flushes of a chunked flash write\<close>

text \<open>
  C1. A flash write is armed by a WriteProgramMemory command with page size 64, byte
  count 256 and the first-block flag, and the 256 bytes \<open>bs\<close> arrive in any chunks
  \<open>cs\<close>. Then every call of \<open>usbFunctionWrite\<close> is served, and the port calls it
  makes are 256 byte writes at consecutive addresses, each of the bytes 63, 127, 191 and
  255 followed by a flush at its address: 4 flushes in all. In the state right after each
  of these flushes (\<open>write_store\<close> of byte \<open>i\<close>, from the state the first \<open>i\<close> bytes
  leave) the last port call is that flush and the page counter equals the page size, 64.
\<close>

theorem C1_four_page_flushes:
  fixes s s0 :: "32 word session" and bs :: "uchar list"
  assumes arm: "hid_class_request k p d s = None" "bRequest d = USBASP_FUNC_WRITEFLASH"
      and page: "data4 d = 64" "data5 d AND 0xF0 = 0"
      and first: "data5 d AND PROG_BLOCKFLAG_FIRST \<noteq> 0"
      and count: "data6 d = 0" "data7 d = 1"
      and chunks: "concat cs = bs" "length bs = 256" "\<forall>c\<in>set cs. length c < 256"
      and s0: "s0 = snd (usbFunctionSetup k p d s)"
  shows "\<exists>rs s'. write_chunks cs s0 = Some (rs, s') \<and> s' = write_bytes bs s0
     \<and> isp_log s' = isp_log s0 @
          concat (map (\<lambda>i. IspWriteFlash (prog_address s0 + of_nat i) (bs ! i) 0
                         # (if i \<in> {63, 127, 191, 255}
                            then [IspFlushPage (prog_address s0 + of_nat i) (bs ! i)] else []))
                      [0..<256])
     \<and> flushes (drop (length (isp_log s0)) (isp_log s')) =
          [IspFlushPage (prog_address s0 + 63) (bs ! 63),
           IspFlushPage (prog_address s0 + 127) (bs ! 127),
           IspFlushPage (prog_address s0 + 191) (bs ! 191),
           IspFlushPage (prog_address s0 + 255) (bs ! 255)]
     \<and> (\<forall>i\<in>{63, 127, 191, 255}.
           last (isp_log (write_store (bs ! i) (write_bytes (take i bs) s0)))
             = IspFlushPage (prog_address s0 + of_nat i) (bs ! i)
           \<and> prog_pagecounter (write_store (bs ! i) (write_bytes (take i bs) s0)) = 64
           \<and> prog_pagesize (write_store (bs ! i) (write_bytes (take i bs) s0)) = 64)"
proof -
  have st: "prog_state s0 = PROG_STATE_WRITEFLASH"
    and nb: "prog_nbytes s0 = 256"
    and ps: "prog_pagesize s0 = 64"
    and pc: "prog_pagecounter s0 = 64"
    using first by (simp_all add: s0 arm_writeflash [OF arm] page count nbytes_field_def int_of_bytes_256)
  have pg: "prog_pagesize s0 \<noteq> 0" and pc': "prog_pagecounter s0 = ucast (prog_pagesize s0)"
    by (simp_all add: ps pc)
  have q: "flush_period (prog_pagesize s0) = 64" by (simp add: ps flush_period_def)
  have len: "length bs = unat (prog_nbytes s0)" "bs \<noteq> []"
    using chunks(2) by (auto simp: nb)
  obtain rs where run: "write_chunks cs s0 = Some (rs, write_bytes bs s0)"
    using write_chunks_declared [OF chunks(3), of s0] st chunks(1,2) nb by auto
  have calls: "paged_calls (prog_address s0) 64 bs =
      concat (map (\<lambda>i. IspWriteFlash (prog_address s0 + of_nat i) (bs ! i) 0
                         # (if i \<in> {63, 127, 191, 255}
                            then [IspFlushPage (prog_address s0 + of_nat i) (bs ! i)] else []))
                      [0..<256])"
    unfolding paged_calls_def chunks(2)
    by (rule arg_cong [where f = concat], rule map_cong) (simp_all add: flush_positions_64)
  have log: "isp_log (write_bytes bs s0) = isp_log s0 @ paged_calls (prog_address s0) 64 bs"
    unfolding paged_transfer [OF st pg pc' len] q by (simp add: ps chunks(2))
  have fl: "flushes (paged_calls (prog_address s0) 64 bs) =
          [IspFlushPage (prog_address s0 + 63) (bs ! 63),
           IspFlushPage (prog_address s0 + 127) (bs ! 127),
           IspFlushPage (prog_address s0 + 191) (bs ! 191),
           IspFlushPage (prog_address s0 + 255) (bs ! 255)]"
  proof -
    have "flushes (paged_calls (prog_address s0) 64 bs) =
        concat (map (\<lambda>i. if i \<in> {63, 127, 191, 255}
                            then [IspFlushPage (prog_address s0 + of_nat i) (bs ! i)] else [])
                      [0..<256])"
      unfolding calls flushes_concat_map
      by (rule arg_cong [where f = concat], rule map_cong) simp_all
    also have "\<dots> = map (\<lambda>i. IspFlushPage (prog_address s0 + of_nat i) (bs ! i))
                      (filter (\<lambda>i. i \<in> {63, 127, 191, 255}) [0..<256])"
      by (rule concat_map_if)
    finally show ?thesis
      by (simp only: flush_offsets_256) simp
  qed
  have each: "last (isp_log (write_store (bs ! i) (write_bytes (take i bs) s0)))
             = IspFlushPage (prog_address s0 + of_nat i) (bs ! i)
           \<and> prog_pagecounter (write_store (bs ! i) (write_bytes (take i bs) s0)) = 64
           \<and> prog_pagesize (write_store (bs ! i) (write_bytes (take i bs) s0)) = 64"
    if i: "i \<in> {63, 127, 191, 255}" for i
  proof -
    have l: "length (take i bs) = i" "i < 256" "Suc i mod 64 = 0"
      using i chunks(2) by auto
    have "length (take i bs) < unat (prog_nbytes s0)" using l by (simp add: nb)
    note paged_store [OF st pg pc' this, of "bs ! i", unfolded q l(1)]
    then show ?thesis using l(3) by (simp add: write_bytes_fields ps)
  qed
  have dr: "drop (length (isp_log s0)) (isp_log (write_bytes bs s0))
      = paged_calls (prog_address s0) 64 bs"
    by (simp add: log)
  show ?thesis
  proof (intro exI conjI ballI)
    show "write_chunks cs s0 = Some (rs, write_bytes bs s0)" by (rule run)
    show "write_bytes bs s0 = write_bytes bs s0" by (rule refl)
    show "isp_log (write_bytes bs s0) = isp_log s0 @
          concat (map (\<lambda>i. IspWriteFlash (prog_address s0 + of_nat i) (bs ! i) 0
                         # (if i \<in> {63, 127, 191, 255}
                            then [IspFlushPage (prog_address s0 + of_nat i) (bs ! i)] else []))
                      [0..<256])"
      using log by (simp only: calls)
    show "flushes (drop (length (isp_log s0)) (isp_log (write_bytes bs s0))) =
          [IspFlushPage (prog_address s0 + 63) (bs ! 63),
           IspFlushPage (prog_address s0 + 127) (bs ! 127),
           IspFlushPage (prog_address s0 + 191) (bs ! 191),
           IspFlushPage (prog_address s0 + 255) (bs ! 255)]"
      by (simp only: dr fl)
  qed (use each in blast)+
qed

lemma vendor_not_hid: "hid_class_request vusb p (vendor_cmd req b2 b3 b4 b5 b6 b7) s = None"
  by (simp add: hid_class_request_def vusb_def vendor_cmd_def)

lemma count_bytes_simps:
  "length (count_bytes n) = n" "i < n \<Longrightarrow> count_bytes n ! i = of_nat i"
  by (simp_all add: count_bytes_def)

lemma power_up_armed:
  "prog_address (snd (usbFunctionSetup vusb p (vendor_cmd USBASP_FUNC_WRITEFLASH 0 0 b4 b5 b6 b7) power_up)) = 0"
  "isp_log (snd (usbFunctionSetup vusb p (vendor_cmd USBASP_FUNC_WRITEFLASH 0 0 b4 b5 b6 b7) power_up)) = []"
proof -
  have "bRequest (vendor_cmd USBASP_FUNC_WRITEFLASH 0 0 b4 b5 b6 b7) = USBASP_FUNC_WRITEFLASH"
    by (simp add: vendor_cmd_def)
  note a = arm_writeflash [OF vendor_not_hid this, of p power_up]
  show "prog_address (snd (usbFunctionSetup vusb p (vendor_cmd USBASP_FUNC_WRITEFLASH 0 0 b4 b5 b6 b7) power_up)) = 0"
    unfolding a by (simp add: vendor_cmd_def power_up_def legacy_address_def int_of_bytes_def)
  show "isp_log (snd (usbFunctionSetup vusb p (vendor_cmd USBASP_FUNC_WRITEFLASH 0 0 b4 b5 b6 b7) power_up)) = []"
    unfolding a by (simp add: power_up_def)
qed

theorem C1_four_page_flushes_witness:
  "hid_class_request vusb erased_target (vendor_cmd USBASP_FUNC_WRITEFLASH 0 0 64 1 0 1)
       (power_up :: 32 word session) = None
   \<and> length (count_bytes 256) = 256
   \<and> (\<exists>rs s'. write_chunks [take 100 (count_bytes 256), [], drop 100 (count_bytes 256)]
          (snd (usbFunctionSetup vusb erased_target
                 (vendor_cmd USBASP_FUNC_WRITEFLASH 0 0 64 1 0 1) power_up)) = Some (rs, s')
        \<and> flushes (isp_log s') =
            [IspFlushPage 63 63, IspFlushPage 127 127, IspFlushPage 191 191, IspFlushPage 255 255])"
proof -
  let ?d = "vendor_cmd USBASP_FUNC_WRITEFLASH 0 0 64 1 0 1"
  let ?s0 = "snd (usbFunctionSetup vusb erased_target ?d power_up) :: 32 word session"
  let ?cs = "[take 100 (count_bytes 256), [], drop 100 (count_bytes 256)]"
  have h: "hid_class_request vusb erased_target ?d (power_up :: 32 word session) = None"
    by (rule vendor_not_hid)
  have d: "bRequest ?d = USBASP_FUNC_WRITEFLASH" "data4 ?d = 64" "data5 ?d AND 0xF0 = 0"
    "data5 ?d AND PROG_BLOCKFLAG_FIRST \<noteq> 0" "data6 ?d = 0" "data7 ?d = 1"
    by (simp_all add: vendor_cmd_def PROG_BLOCKFLAG_FIRST_def)
  have c: "concat ?cs = count_bytes 256" "length (count_bytes 256) = 256"
    "\<forall>c\<in>set ?cs. length c < 256"
    by (simp_all add: count_bytes_simps)
  from C1_four_page_flushes [OF h d c refl]
  obtain rs s' where r: "write_chunks ?cs ?s0 = Some (rs, s')"
    "flushes (drop (length (isp_log ?s0)) (isp_log s')) =
          [IspFlushPage (prog_address ?s0 + 63) (count_bytes 256 ! 63),
           IspFlushPage (prog_address ?s0 + 127) (count_bytes 256 ! 127),
           IspFlushPage (prog_address ?s0 + 191) (count_bytes 256 ! 191),
           IspFlushPage (prog_address ?s0 + 255) (count_bytes 256 ! 255)]"
    by blast
  have "flushes (isp_log s') =
      [IspFlushPage 63 63, IspFlushPage 127 127, IspFlushPage 191 191, IspFlushPage 255 255]"
    using r(2) by (simp add: power_up_armed count_bytes_simps)
  with r(1) h c(2) show ?thesis by blast
qed

lemma flush_positions_200_all:
  "list_all (\<lambda>i. (Suc i mod 64 = 0) = (i \<in> {63, 127, 191})) [0..<200]"
  by code_simp

lemma flush_positions_200:
  "i < 200 \<Longrightarrow> (Suc i mod 64 = 0) = (i \<in> {63, 127, 191})"
  using flush_positions_200_all by (simp add: list_all_iff del: upt_rec_numeral)

lemma flush_offsets_200: "filter (\<lambda>i. i \<in> {63, 127, 191}) [0..<200] = [63, 127, 191::nat]"
  by code_simp

lemma int_of_bytes_200: "int_of_bytes 0 200 = 200"
  by (simp add: int_of_bytes_def)

lemma write_iter_log:
  "isp_log (snd (write_iter b (r, t))) = isp_log (write_store b t) @
     (if prog_nbytes t - 1 = 0 \<and> prog_blockflags t AND PROG_BLOCKFLAG_LAST \<noteq> 0
         \<and> ucast (prog_pagecounter (write_store b t)) \<noteq> prog_pagesize t
      then [IspFlushPage (prog_address t) b] else [])"
  by (simp add: write_iter_def write_count_def write_store_def isp_call_def Let_def)

lemma write_store_log:
  "isp_log (write_store b t) = isp_log t @
     (if prog_state t = PROG_STATE_WRITEFLASH
      then IspWriteFlash (prog_address t) b (if prog_pagesize t = 0 then 1 else 0)
             # (if prog_pagesize t \<noteq> 0 \<and> prog_pagecounter t - 1 = 0
                then [IspFlushPage (prog_address t) b] else [])
      else [IspWriteEEPROM (prog_address t) b])"
  by (simp add: write_store_def isp_call_def Let_def)

section \<open>The forced flush at the end of a transfer\<close>

text \<open>
  C2. A flash write is armed with page size 64, byte count 200 and both block flags, and
  the 200 bytes arrive in any chunks. Then the port calls are 200 byte writes, the bytes
  63, 127 and 191 each followed by a flush at its address, and one more flush after the
  last byte, with that byte (\<open>bs ! 199\<close>) and its address: the page counter is 56 then,
  not 64. In every pass of the loop, whatever the state, the flush beyond those of
  \<open>write_store\<close> is made exactly when the decrement brings \<open>prog_nbytes\<close> to 0,
  the last-block flag is set and the page counter differs from the page size; its
  arguments are the address and the byte of the one write \<open>write_store\<close> has just made.
\<close>

theorem C2_forced_final_flush:
  fixes s s0 :: "32 word session" and bs :: "uchar list"
  assumes arm: "hid_class_request k p d s = None" "bRequest d = USBASP_FUNC_WRITEFLASH"
      and page: "data4 d = 64" "data5 d AND 0xF0 = 0"
      and flags: "data5 d AND PROG_BLOCKFLAG_FIRST \<noteq> 0" "data5 d AND PROG_BLOCKFLAG_LAST \<noteq> 0"
      and count: "data6 d = 200" "data7 d = 0"
      and chunks: "concat cs = bs" "length bs = 200" "\<forall>c\<in>set cs. length c < 256"
      and s0: "s0 = snd (usbFunctionSetup k p d s)"
  shows "(\<exists>rs s'. write_chunks cs s0 = Some (rs, s') \<and> s' = write_bytes bs s0
     \<and> isp_log s' = isp_log s0 @
          concat (map (\<lambda>i. IspWriteFlash (prog_address s0 + of_nat i) (bs ! i) 0
                         # (if i \<in> {63, 127, 191}
                            then [IspFlushPage (prog_address s0 + of_nat i) (bs ! i)] else []))
                      [0..<200])
          @ [IspFlushPage (prog_address s0 + 199) (bs ! 199)]
     \<and> flushes (drop (length (isp_log s0)) (isp_log s')) =
          [IspFlushPage (prog_address s0 + 63) (bs ! 63),
           IspFlushPage (prog_address s0 + 127) (bs ! 127),
           IspFlushPage (prog_address s0 + 191) (bs ! 191),
           IspFlushPage (prog_address s0 + 199) (bs ! 199)]
     \<and> prog_pagecounter s' = 56 \<and> prog_pagesize s' = 64 \<and> prog_nbytes s' = 0
     \<and> prog_state s' = PROG_STATE_IDLE)
   \<and> (\<forall>b r (t :: 32 word session).
         isp_log (snd (write_iter b (r, t))) = isp_log (write_store b t) @
           (if prog_nbytes t - 1 = 0 \<and> prog_blockflags t AND PROG_BLOCKFLAG_LAST \<noteq> 0
               \<and> ucast (prog_pagecounter (write_store b t)) \<noteq> prog_pagesize t
            then [IspFlushPage (prog_address t) b] else [])
         \<and> transfer_addrs (drop (length (isp_log t)) (isp_log (write_store b t)))
             = [prog_address t])"
proof -
  have st: "prog_state s0 = PROG_STATE_WRITEFLASH"
    and nb: "prog_nbytes s0 = 200"
    and ps: "prog_pagesize s0 = 64"
    and pc: "prog_pagecounter s0 = 64"
    and bf: "prog_blockflags s0 AND PROG_BLOCKFLAG_LAST \<noteq> 0"
    using flags by (simp_all add: s0 arm_writeflash [OF arm] page count nbytes_field_def
        int_of_bytes_200 flag_of_low_nibble)
  have pg: "prog_pagesize s0 \<noteq> 0" and pc': "prog_pagecounter s0 = ucast (prog_pagesize s0)"
    by (simp_all add: ps pc)
  have q: "flush_period (prog_pagesize s0) = 64" by (simp add: ps flush_period_def)
  have len: "length bs = unat (prog_nbytes s0)" "bs \<noteq> []"
    using chunks(2) by (auto simp: nb)
  obtain rs where run: "write_chunks cs s0 = Some (rs, write_bytes bs s0)"
    using write_chunks_declared [OF chunks(3), of s0] st chunks(1,2) nb by auto
  have calls: "paged_calls (prog_address s0) 64 bs =
      concat (map (\<lambda>i. IspWriteFlash (prog_address s0 + of_nat i) (bs ! i) 0
                         # (if i \<in> {63, 127, 191}
                            then [IspFlushPage (prog_address s0 + of_nat i) (bs ! i)] else []))
                      [0..<200])"
    unfolding paged_calls_def chunks(2)
    by (rule arg_cong [where f = concat], rule map_cong) (simp_all add: flush_positions_200)
  have lst: "last bs = bs ! 199" using chunks(2) len(2) by (simp add: last_conv_nth)
  note pt = paged_transfer [OF st pg pc' len, unfolded q lst chunks(2)]
  have log: "isp_log (write_bytes bs s0) = isp_log s0 @ paged_calls (prog_address s0) 64 bs
      @ [IspFlushPage (prog_address s0 + 199) (bs ! 199)]"
    unfolding pt using bf by (simp add: ps)
  have fl: "flushes (paged_calls (prog_address s0) 64 bs) =
          [IspFlushPage (prog_address s0 + 63) (bs ! 63),
           IspFlushPage (prog_address s0 + 127) (bs ! 127),
           IspFlushPage (prog_address s0 + 191) (bs ! 191)]"
  proof -
    have "flushes (paged_calls (prog_address s0) 64 bs) =
        concat (map (\<lambda>i. if i \<in> {63, 127, 191}
                            then [IspFlushPage (prog_address s0 + of_nat i) (bs ! i)] else [])
                      [0..<200])"
      unfolding calls flushes_concat_map
      by (rule arg_cong [where f = concat], rule map_cong) simp_all
    also have "\<dots> = map (\<lambda>i. IspFlushPage (prog_address s0 + of_nat i) (bs ! i))
                      (filter (\<lambda>i. i \<in> {63, 127, 191}) [0..<200])"
      by (rule concat_map_if)
    finally show ?thesis
      by (simp only: flush_offsets_200) simp
  qed
  have dr: "drop (length (isp_log s0)) (isp_log (write_bytes bs s0))
      = paged_calls (prog_address s0) 64 bs @ [IspFlushPage (prog_address s0 + 199) (bs ! 199)]"
    by (simp add: log)
  have fields: "prog_pagecounter (write_bytes bs s0) = 56" "prog_pagesize (write_bytes bs s0) = 64"
    "prog_nbytes (write_bytes bs s0) = 0" "prog_state (write_bytes bs s0) = PROG_STATE_IDLE"
    unfolding pt by (simp_all add: ps)
  have scenario: "\<exists>rs s'. write_chunks cs s0 = Some (rs, s') \<and> s' = write_bytes bs s0
     \<and> isp_log s' = isp_log s0 @
          concat (map (\<lambda>i. IspWriteFlash (prog_address s0 + of_nat i) (bs ! i) 0
                         # (if i \<in> {63, 127, 191}
                            then [IspFlushPage (prog_address s0 + of_nat i) (bs ! i)] else []))
                      [0..<200])
          @ [IspFlushPage (prog_address s0 + 199) (bs ! 199)]
     \<and> flushes (drop (length (isp_log s0)) (isp_log s')) =
          [IspFlushPage (prog_address s0 + 63) (bs ! 63),
           IspFlushPage (prog_address s0 + 127) (bs ! 127),
           IspFlushPage (prog_address s0 + 191) (bs ! 191),
           IspFlushPage (prog_address s0 + 199) (bs ! 199)]
     \<and> prog_pagecounter s' = 56 \<and> prog_pagesize s' = 64 \<and> prog_nbytes s' = 0
     \<and> prog_state s' = PROG_STATE_IDLE"
  proof (intro exI conjI)
    show "write_chunks cs s0 = Some (rs, write_bytes bs s0)" by (rule run)
    show "write_bytes bs s0 = write_bytes bs s0" by (rule refl)
    show "isp_log (write_bytes bs s0) = isp_log s0 @
          concat (map (\<lambda>i. IspWriteFlash (prog_address s0 + of_nat i) (bs ! i) 0
                         # (if i \<in> {63, 127, 191}
                            then [IspFlushPage (prog_address s0 + of_nat i) (bs ! i)] else []))
                      [0..<200])
          @ [IspFlushPage (prog_address s0 + 199) (bs ! 199)]"
      using log by (simp only: calls)
    show "flushes (drop (length (isp_log s0)) (isp_log (write_bytes bs s0))) =
          [IspFlushPage (prog_address s0 + 63) (bs ! 63),
           IspFlushPage (prog_address s0 + 127) (bs ! 127),
           IspFlushPage (prog_address s0 + 191) (bs ! 191),
           IspFlushPage (prog_address s0 + 199) (bs ! 199)]"
      by (simp only: dr flushes_append fl) simp
  qed (rule fields)+
  have step: "\<forall>b r (t :: 32 word session).
         isp_log (snd (write_iter b (r, t))) = isp_log (write_store b t) @
           (if prog_nbytes t - 1 = 0 \<and> prog_blockflags t AND PROG_BLOCKFLAG_LAST \<noteq> 0
               \<and> ucast (prog_pagecounter (write_store b t)) \<noteq> prog_pagesize t
            then [IspFlushPage (prog_address t) b] else [])
         \<and> transfer_addrs (drop (length (isp_log t)) (isp_log (write_store b t)))
             = [prog_address t]"
    by (intro allI conjI, rule write_iter_log) (simp add: write_store_log)
  from scenario step show ?thesis by (rule conjI)
qed

theorem C2_forced_final_flush_witness:
  "hid_class_request vusb erased_target (vendor_cmd USBASP_FUNC_WRITEFLASH 0 0 64 3 200 0)
       (power_up :: 32 word session) = None
   \<and> length (count_bytes 200) = 200
   \<and> (\<exists>rs s'. write_chunks [take 64 (count_bytes 200), drop 64 (count_bytes 200)]
          (snd (usbFunctionSetup vusb erased_target
                 (vendor_cmd USBASP_FUNC_WRITEFLASH 0 0 64 3 200 0) power_up)) = Some (rs, s')
        \<and> flushes (isp_log s') =
            [IspFlushPage 63 63, IspFlushPage 127 127, IspFlushPage 191 191, IspFlushPage 199 199]
        \<and> prog_pagecounter s' = 56 \<and> prog_pagesize s' = 64)"
proof -
  let ?d = "vendor_cmd USBASP_FUNC_WRITEFLASH 0 0 64 3 200 0"
  let ?s0 = "snd (usbFunctionSetup vusb erased_target ?d power_up) :: 32 word session"
  let ?cs = "[take 64 (count_bytes 200), drop 64 (count_bytes 200)]"
  have h: "hid_class_request vusb erased_target ?d (power_up :: 32 word session) = None"
    by (rule vendor_not_hid)
  have d: "bRequest ?d = USBASP_FUNC_WRITEFLASH" "data4 ?d = 64" "data5 ?d AND 0xF0 = 0"
    "data5 ?d AND PROG_BLOCKFLAG_FIRST \<noteq> 0" "data5 ?d AND PROG_BLOCKFLAG_LAST \<noteq> 0"
    "data6 ?d = 200" "data7 ?d = 0"
    by (simp_all add: vendor_cmd_def PROG_BLOCKFLAG_FIRST_def PROG_BLOCKFLAG_LAST_def)
  have c: "concat ?cs = count_bytes 200" "length (count_bytes 200) = 200"
    "\<forall>c\<in>set ?cs. length c < 256"
    by (simp_all add: count_bytes_simps)
  from C2_forced_final_flush [OF h d c refl]
  obtain rs s' where r: "write_chunks ?cs ?s0 = Some (rs, s')"
    "flushes (drop (length (isp_log ?s0)) (isp_log s')) =
          [IspFlushPage (prog_address ?s0 + 63) (count_bytes 200 ! 63),
           IspFlushPage (prog_address ?s0 + 127) (count_bytes 200 ! 127),
           IspFlushPage (prog_address ?s0 + 191) (count_bytes 200 ! 191),
           IspFlushPage (prog_address ?s0 + 199) (count_bytes 200 ! 199)]"
    "prog_pagecounter s' = 56" "prog_pagesize s' = 64"
    by blast
  have "flushes (isp_log s') =
      [IspFlushPage 63 63, IspFlushPage 127 127, IspFlushPage 191 191, IspFlushPage 199 199]"
    using r(2) by (simp add: power_up_armed count_bytes_simps)
  with r(1,3,4) h c(2) show ?thesis by blast
qed

lemma unat_uchar_less: "unat (x :: uchar) < 256"
  using unsigned_less [of x, where 'a = nat] by simp

lemma high_nibble_shift: "(x :: uchar) AND 0xF0 = push_bit 4 (drop_bit 4 x)"
proof -
  have "x AND 0xF0 = x AND push_bit 4 (mask 4)"
    by (simp add: mask_eq_exp_minus_1)
  also have "\<dots> = push_bit 4 (drop_bit 4 x)"
    by (rule bit_word_eqI) (auto simp add: bit_simps)
  finally show ?thesis .
qed

lemma unat_high_nibble: "unat ((x :: uchar) AND 0xF0) = 16 * (unat x div 16)"
proof -
  have "unat x div 16 * 16 < 256" using unat_uchar_less [of x] by simp
  then show ?thesis
    by (simp add: high_nibble_shift push_bit_eq_mult drop_bit_eq_div unat_word_ariths unat_div)
qed

lemma unat_pagesize_field:
  "unat (ucast (d4 :: uchar) + push_bit 4 (ucast ((d5 :: uchar) AND 0xF0)) :: uint)
     = unat d4 + 256 * (unat d5 div 16)"
proof -
  have a: "unat (ucast d4 :: uint) = unat d4"
    using unat_uchar_less [of d4] by (simp add: unsigned_ucast_eq take_bit_eq_mod)
  have "unat d5 div 16 < 16" using unat_uchar_less [of d5] by simp
  then have le: "256 * (unat d5 div 16) \<le> 256 * 15" by simp
  have "unat (ucast (d5 AND 0xF0) :: uint) = 16 * (unat d5 div 16)"
    using le by (simp add: unsigned_ucast_eq unat_high_nibble take_bit_eq_mod)
  then have b: "unat (push_bit 4 (ucast (d5 AND 0xF0)) :: uint) = 256 * (unat d5 div 16)"
    using le by (simp add: push_bit_eq_mult unat_word_ariths)
  have "unat d4 + 256 * (unat d5 div 16) < 2 ^ LENGTH(16)"
    using unat_uchar_less [of d4] le by simp
  then show ?thesis
    using a b by (simp add: unat_add_lem [THEN iffD1])
qed


lemma pagesize_field_le: "unat (ucast (d4 :: uchar) + push_bit 4 (ucast ((d5 :: uchar) AND 0xF0)) :: uint) \<le> 4095"
proof -
  have "unat d5 div 16 < 16" using unat_uchar_less [of d5] by simp
  then have "256 * (unat d5 div 16) \<le> 256 * 15" by simp
  then show ?thesis using unat_uchar_less [of d4] by (simp add: unat_pagesize_field)
qed

lemma flag_bits:
  "((x :: uchar) AND PROG_BLOCKFLAG_FIRST \<noteq> 0) = bit x 0"
  "((x :: uchar) AND PROG_BLOCKFLAG_LAST \<noteq> 0) = bit x 1"
  using bit_iff_and_push_bit_not_eq_0 [of x 0] bit_iff_and_push_bit_not_eq_0 [of x 1]
  by (simp_all add: PROG_BLOCKFLAG_FIRST_def PROG_BLOCKFLAG_LAST_def)

lemma hid_class_request_fields:
  "hid_class_request k p (d\<lparr>data4 := x, data5 := y\<rparr>) s = None
     \<longleftrightarrow> hid_class_request k p d s = None"
  by (simp add: hid_class_request_def)

section \<open>Decoding the page size and the block flags\<close>

text \<open>
  C8. After a WriteProgramMemory command, \<open>prog_pagesize\<close> is byte 4 plus the high
  nibble of byte 5 (\<open>data5 AND 0xF0\<close>) shifted left by 4, which as a number is byte 4 plus
  256 times the value of that nibble; it is at most 4095 and every value from 0 to 4095 is
  the page size of some command. \<open>prog_blockflags\<close> is the low nibble of byte 5; the
  test of the first-block flag reads bit 0 of byte 5 and that of the last-block flag bit 1.
\<close>

theorem C8_pagesize_and_blockflags:
  fixes s :: "32 word session"
  assumes "hid_class_request k p d s = None" "bRequest d = USBASP_FUNC_WRITEFLASH"
  shows "prog_pagesize (snd (usbFunctionSetup k p d s))
           = ucast (data4 d) + push_bit 4 (ucast (data5 d AND 0xF0))
     \<and> unat (prog_pagesize (snd (usbFunctionSetup k p d s)))
           = unat (data4 d) + 256 * (unat (data5 d) div 16)
     \<and> unat (prog_pagesize (snd (usbFunctionSetup k p d s))) \<le> 4095
     \<and> (\<forall>n\<le>4095. unat (prog_pagesize (snd (usbFunctionSetup k p
              (d\<lparr>data4 := of_nat (n mod 256), data5 := of_nat (16 * (n div 256))\<rparr>) s))) = n)
     \<and> prog_blockflags (snd (usbFunctionSetup k p d s)) = data5 d AND 0x0F
     \<and> (prog_blockflags (snd (usbFunctionSetup k p d s)) AND PROG_BLOCKFLAG_FIRST \<noteq> 0)
           = bit (data5 d) 0
     \<and> (prog_blockflags (snd (usbFunctionSetup k p d s)) AND PROG_BLOCKFLAG_LAST \<noteq> 0)
           = bit (data5 d) 1"
proof -
  note a = arm_writeflash [OF assms]
  have range: "unat (prog_pagesize (snd (usbFunctionSetup k p
              (d\<lparr>data4 := of_nat (n mod 256), data5 := of_nat (16 * (n div 256))\<rparr>) s))) = n"
    if n: "n \<le> 4095" for n
  proof -
    define x :: uchar where "x = of_nat (n mod 256)"
    define y :: uchar where "y = of_nat (16 * (n div 256))"
    have h: "hid_class_request k p (d\<lparr>data4 := x, data5 := y\<rparr>) s = None"
      "bRequest (d\<lparr>data4 := x, data5 := y\<rparr>) = USBASP_FUNC_WRITEFLASH"
      using assms by (simp_all add: hid_class_request_fields)
    have "n div 256 \<le> 15" using n by simp
    then have "16 * (n div 256) < 256" by simp
    then have "(16 * (n div 256)) mod 2 ^ LENGTH(8) = 16 * (n div 256)" by simp
    then have u5: "unat y = 16 * (n div 256)"
      unfolding y_def by (simp only: unat_of_nat)
    have u4: "unat x = n mod 256"
      unfolding x_def by (simp add: unat_of_nat)
    have "unat (prog_pagesize (snd (usbFunctionSetup k p (d\<lparr>data4 := x, data5 := y\<rparr>) s))) = n"
      unfolding arm_writeflash [OF h] by (simp add: unat_pagesize_field u4 u5)
    then show ?thesis unfolding x_def y_def .
  qed
  have le: "unat (data4 d) + 256 * (unat (data5 d) div 16) \<le> 4095"
    using pagesize_field_le [of "data4 d" "data5 d"] by (simp only: unat_pagesize_field)
  have rest: "prog_pagesize (snd (usbFunctionSetup k p d s))
           = ucast (data4 d) + push_bit 4 (ucast (data5 d AND 0xF0))"
    "unat (prog_pagesize (snd (usbFunctionSetup k p d s)))
           = unat (data4 d) + 256 * (unat (data5 d) div 16)"
    "prog_blockflags (snd (usbFunctionSetup k p d s)) = data5 d AND 0x0F"
    "(prog_blockflags (snd (usbFunctionSetup k p d s)) AND PROG_BLOCKFLAG_FIRST \<noteq> 0)
           = bit (data5 d) 0"
    "(prog_blockflags (snd (usbFunctionSetup k p d s)) AND PROG_BLOCKFLAG_LAST \<noteq> 0)
           = bit (data5 d) 1"
    unfolding a by (simp_all add: unat_pagesize_field flag_of_low_nibble flag_bits)
  show ?thesis
    using rest range le by (simp only:) blast
qed

theorem C8_pagesize_and_blockflags_witness:
  "hid_class_request vusb erased_target (vendor_cmd USBASP_FUNC_WRITEFLASH 0 0 0x34 0x12 0 1)
       (power_up :: 32 word session) = None
   \<and> prog_pagesize (snd (usbFunctionSetup vusb erased_target
          (vendor_cmd USBASP_FUNC_WRITEFLASH 0 0 0x34 0x12 0 1) (power_up :: 32 word session))) = 0x134
   \<and> prog_blockflags (snd (usbFunctionSetup vusb erased_target
          (vendor_cmd USBASP_FUNC_WRITEFLASH 0 0 0x34 0x12 0 1) (power_up :: 32 word session))) = 2"
proof -
  let ?d = "vendor_cmd USBASP_FUNC_WRITEFLASH 0 0 0x34 0x12 0 1"
  have h: "hid_class_request vusb erased_target ?d (power_up :: 32 word session) = None"
    by (rule vendor_not_hid)
  have d: "bRequest ?d = USBASP_FUNC_WRITEFLASH" by (simp add: vendor_cmd_def)
  from C8_pagesize_and_blockflags [OF h d]
  have "prog_pagesize (snd (usbFunctionSetup vusb erased_target ?d (power_up :: 32 word session)))
           = ucast (data4 ?d) + push_bit 4 (ucast (data5 ?d AND 0xF0))"
    and "prog_blockflags (snd (usbFunctionSetup vusb erased_target ?d (power_up :: 32 word session)))
           = data5 ?d AND 0x0F"
    by blast+
  then show ?thesis using h by (simp add: vendor_cmd_def)
qed



section \<open>The 8-bit page counter and page sizes of 256 and more\<close>





section \<open>Calls in the wrong state\<close>

text \<open>
  C6. \<open>usbFunctionRead\<close> called in a state that is neither of the two read states, and
  \<open>usbFunctionWrite\<close> called in a state that is neither of the two write states, return
  0xFF and leave every variable and the history of port calls as they were; the reader
  stores no byte. The idle state is neither a read nor a write state. This holds for the
  reader and writer of both revisions.
\<close>

theorem C6_wrong_state_sentinel:
  fixes s :: "'a::len word session"
  shows "(prog_state s \<noteq> PROG_STATE_READFLASH \<and> prog_state s \<noteq> PROG_STATE_READEEPROM
            \<longrightarrow> usbFunctionRead p len s = (0xff, [], s))
     \<and> (prog_state s \<noteq> PROG_STATE_WRITEFLASH \<and> prog_state s \<noteq> PROG_STATE_WRITEEEPROM
            \<longrightarrow> usbFunctionWrite data len' s = Some (0xff, s))
     \<and> (prog_state s = PROG_STATE_IDLE
            \<longrightarrow> usbFunctionRead p len s = (0xff, [], s)
              \<and> usbFunctionWrite data len' s = Some (0xff, s))"
  by (simp add: usbFunctionRead_def usbFunctionWrite_def PROG_STATE_IDLE_def
      PROG_STATE_READFLASH_def PROG_STATE_READEEPROM_def PROG_STATE_WRITEFLASH_def
      PROG_STATE_WRITEEEPROM_def)

theorem C6_wrong_state_sentinel_witness:
  "prog_state (power_up :: 32 word session) = PROG_STATE_IDLE
   \<and> usbFunctionRead erased_target 8 (power_up :: 32 word session) = (0xff, [], power_up)
   \<and> usbFunctionWrite [1, 2, 3] 3 (power_up :: 32 word session) = Some (0xff, power_up)"
proof -
  have i: "prog_state (power_up :: 32 word session) = PROG_STATE_IDLE"
    by (simp add: power_up_def)
  from C6_wrong_state_sentinel [of power_up erased_target 8 "[1, 2, 3]" 3] i
  show ?thesis by blast
qed

lemma read_iter_nbytes_indep:
  "read_iter p (s\<lparr>prog_nbytes := n\<rparr>)
     = (fst (read_iter p s), (snd (read_iter p s))\<lparr>prog_nbytes := n\<rparr>)"
  by (simp add: read_iter_def Let_def isp_call_def)

lemma read_loop_nbytes_indep:
  "read_loop p k (s\<lparr>prog_nbytes := n\<rparr>)
     = (fst (read_loop p k s), (snd (read_loop p k s))\<lparr>prog_nbytes := n\<rparr>)"
  by (induction k arbitrary: s) (simp_all add: Let_def read_iter_nbytes_indep)

lemma read_iter_fields:
  "prog_state (snd (read_iter p s)) = prog_state s"
  "prog_nbytes (snd (read_iter p s)) = prog_nbytes s"
  "prog_address (snd (read_iter p s)) = prog_address s + 1"
  "prog_address_newmode (snd (read_iter p s)) = prog_address_newmode s"
  by (simp_all add: read_iter_def Let_def isp_call_def)

lemma read_loop_fields:
  "prog_state (snd (read_loop p k s)) = prog_state s"
  "prog_nbytes (snd (read_loop p k s)) = prog_nbytes s"
  "prog_address (snd (read_loop p k s)) = prog_address s + of_nat k"
  "prog_address_newmode (snd (read_loop p k s)) = prog_address_newmode s"
  "length (fst (read_loop p k s)) = k"
  by (induction k arbitrary: s) (simp_all add: Let_def read_iter_fields)

section \<open>A short chunk ends a read\<close>

text \<open>
  C7. \<open>usbFunctionRead\<close> called in a read state with a length below 8 returns that
  length, stores that many bytes and leaves the state idle, whatever \<open>prog_nbytes\<close>
  is. It does not consult \<open>prog_nbytes\<close>: it leaves it unchanged, and with any other
  value in its place the call returns and stores the same and ends in the same state
  but for that value.
\<close>

theorem C7_short_read_ends_transfer:
  fixes s :: "'a::len word session"
  assumes "prog_state s = PROG_STATE_READFLASH \<or> prog_state s = PROG_STATE_READEEPROM"
      and "len < 8"
  shows "fst (usbFunctionRead p len s) = len
     \<and> length (fst (snd (usbFunctionRead p len s))) = unat len
     \<and> prog_state (snd (snd (usbFunctionRead p len s))) = PROG_STATE_IDLE
     \<and> prog_nbytes (snd (snd (usbFunctionRead p len s))) = prog_nbytes s
     \<and> (\<forall>n. usbFunctionRead p len (s\<lparr>prog_nbytes := n\<rparr>)
            = (fst (usbFunctionRead p len s), fst (snd (usbFunctionRead p len s)),
               (snd (snd (usbFunctionRead p len s)))\<lparr>prog_nbytes := n\<rparr>))"
  using assms
  by (auto simp add: usbFunctionRead_def Let_def read_loop_fields read_loop_nbytes_indep)

lemma arm_readflash:
  assumes "hid_class_request k p d s = None" "bRequest d = USBASP_FUNC_READFLASH"
  shows "usbFunctionSetup k p d s =
    (0xff, s\<lparr>prog_state := PROG_STATE_READFLASH,
             prog_address := (if prog_address_newmode s = 0 then legacy_address d else prog_address s),
             prog_nbytes := nbytes_field d,
             usbMsgPtr := Msg_replyBuffer\<rparr>)"
  using assms
  by (simp add: usbFunctionSetup_def usbasp_request_def set_address_def Let_def
      USBASP_FUNC_CONNECT_def USBASP_FUNC_DISCONNECT_def USBASP_FUNC_TRANSMIT_def
      USBASP_FUNC_READFLASH_def)

lemma read_armed_eq:
  "read_armed = power_up\<lparr>prog_state := PROG_STATE_READFLASH, prog_nbytes := 16,
                          usbMsgPtr := Msg_replyBuffer\<rparr>"
proof -
  have "bRequest (vendor_cmd USBASP_FUNC_READFLASH 0 0 0 0 16 0) = USBASP_FUNC_READFLASH"
    by (simp add: vendor_cmd_def)
  note a = arm_readflash [OF vendor_not_hid this, of erased_target power_up]
  show ?thesis unfolding read_armed_def a
    by (simp add: vendor_cmd_def power_up_def legacy_address_def nbytes_field_def int_of_bytes_def)
qed

theorem C7_short_read_ends_transfer_witness:
  "prog_state read_armed = PROG_STATE_READFLASH \<and> (3 :: uchar) < 8
   \<and> prog_nbytes read_armed = 16
   \<and> fst (usbFunctionRead erased_target 3 read_armed) = 3
   \<and> prog_state (snd (snd (usbFunctionRead erased_target 3 read_armed))) = PROG_STATE_IDLE
   \<and> prog_nbytes (snd (snd (usbFunctionRead erased_target 3 read_armed))) = 16"
proof -
  have a: "prog_state read_armed = PROG_STATE_READFLASH \<or> prog_state read_armed = PROG_STATE_READEEPROM"
    and b: "(3 :: uchar) < 8" and c: "prog_nbytes read_armed = 16"
    and d: "prog_state read_armed = PROG_STATE_READFLASH"
    by (simp_all add: read_armed_eq)
  from C7_short_read_ends_transfer [OF a b, of erased_target] b c d
  show ?thesis by simp
qed

lemma prog_state_distinct:
  "PROG_STATE_IDLE \<noteq> PROG_STATE_WRITEFLASH" "PROG_STATE_IDLE \<noteq> PROG_STATE_WRITEEEPROM"
  "PROG_STATE_IDLE \<noteq> PROG_STATE_READFLASH" "PROG_STATE_IDLE \<noteq> PROG_STATE_READEEPROM"
  "PROG_STATE_WRITEEEPROM \<noteq> PROG_STATE_WRITEFLASH"
  by (simp_all add: PROG_STATE_IDLE_def PROG_STATE_WRITEFLASH_def PROG_STATE_WRITEEEPROM_def
      PROG_STATE_READFLASH_def PROG_STATE_READEEPROM_def)

lemma write_iter_ret:
  "fst (write_iter b (r, s)) = (if prog_nbytes s - 1 = 0 then 1 else r)"
  by (simp add: write_iter_def write_count_def write_store_def isp_call_def Let_def)

lemma fold_write_iter_snoc:
  "fold write_iter (xs @ [b]) (r, s)
     = write_iter b (fst (fold write_iter xs (r, s)), write_bytes xs s)"
proof -
  obtain r1 s1 where a: "fold write_iter xs (r, s) = (r1, s1)"
    by (cases "fold write_iter xs (r, s)")
  have "snd (fold write_iter xs (r, s)) = write_bytes xs s"
    unfolding write_bytes_def by (rule snd_fold_write_iter)
  with a have "s1 = write_bytes xs s" by simp
  with a show ?thesis by simp
qed

lemma fold_write_iter_ret_keep:
  "length bs < unat (prog_nbytes s) \<Longrightarrow> fst (fold write_iter bs (r, s)) = r"
proof (induction bs rule: rev_induct)
  case Nil
  show ?case by simp
next
  case (snoc b bs)
  have "prog_nbytes s - of_nat (Suc (length bs)) \<noteq> 0"
    using snoc.prems by (intro nbytes_not_zero) simp
  then have "prog_nbytes s - of_nat (length bs) - 1 \<noteq> 0"
    by (simp add: algebra_simps)
  moreover have "fst (fold write_iter bs (r, s)) = r"
    using snoc by simp
  ultimately show ?case
    unfolding fold_write_iter_snoc by (simp add: write_iter_ret write_bytes_fields)
qed

lemma nbytes_exhausted:
  assumes "length bs = unat (N :: uint)"
  shows "N - of_nat (length bs) = 0"
  using assms by simp

lemma fold_write_iter_final:
  assumes "length bs = unat (prog_nbytes s)" "bs \<noteq> []"
  shows "fst (fold write_iter bs (r, s)) = 1" "prog_state (write_bytes bs s) = PROG_STATE_IDLE"
proof -
  have bs: "bs = butlast bs @ [last bs]" using assms(2) by simp
  have n: "Suc (length (butlast bs)) = length bs" using assms(2) by simp
  have "prog_nbytes s - of_nat (Suc (length (butlast bs))) = 0"
    unfolding n using assms(1) by simp
  then have z: "prog_nbytes s - of_nat (length (butlast bs)) - 1 = 0"
    by (simp add: algebra_simps)
  then have z': "prog_nbytes s - of_nat (length (butlast bs)) = 1"
    by simp
  have f: "fold write_iter bs (r, s)
     = write_iter (last bs) (fst (fold write_iter (butlast bs) (r, s)), write_bytes (butlast bs) s)"
    using fold_write_iter_snoc [of "butlast bs" "last bs" r s] bs by simp
  show "fst (fold write_iter bs (r, s)) = 1"
    unfolding f using z by (simp add: write_iter_ret write_bytes_fields)
  have "write_bytes bs s = snd (write_iter (last bs) (0, write_bytes (butlast bs) s))"
    using write_bytes_snoc [of "butlast bs" "last bs" s] bs by simp
  then show "prog_state (write_bytes bs s) = PROG_STATE_IDLE"
    using z' by (simp add: write_iter_state write_bytes_fields)
qed

lemma usbFunctionWrite_served:
  assumes "prog_state s = PROG_STATE_WRITEFLASH \<or> prog_state s = PROG_STATE_WRITEEEPROM"
      and "unat len \<le> length data"
  shows "usbFunctionWrite data len s = Some (fold write_iter (take (unat len) data) (0, s))"
  using assms by (auto simp: usbFunctionWrite_def)

lemma usbFunctionWrite_within:
  fixes s :: "'a::len word session"
  assumes st: "prog_state s = PROG_STATE_WRITEFLASH \<or> prog_state s = PROG_STATE_WRITEEEPROM"
      and buf: "unat len \<le> length data"
      and dec: "unat len \<le> unat (prog_nbytes s)"
  shows "\<exists>ret s'. usbFunctionWrite data len s = Some (ret, s')
     \<and> s' = write_bytes (take (unat len) data) s
     \<and> prog_nbytes s' = prog_nbytes s - ucast len
     \<and> unat (prog_nbytes s') = unat (prog_nbytes s) - unat len
     \<and> (prog_state s' = PROG_STATE_IDLE) = (len \<noteq> 0 \<and> prog_nbytes s' = 0)
     \<and> (prog_state s' \<noteq> PROG_STATE_IDLE \<longrightarrow> prog_state s' = prog_state s)
     \<and> ret = (if len \<noteq> 0 \<and> prog_nbytes s' = 0 then 1 else 0)"
proof -
  let ?bs = "take (unat len) data"
  have l: "length ?bs = unat len" using buf by simp
  have served: "usbFunctionWrite data len s = Some (fold write_iter ?bs (0, s))"
    using st buf by (rule usbFunctionWrite_served)
  have snd': "snd (fold write_iter ?bs (0, s)) = write_bytes ?bs s"
    by (simp add: write_bytes_def)
  have "(of_nat (unat len) :: uint) = ucast len" by simp
  then have nb: "prog_nbytes (write_bytes ?bs s) = prog_nbytes s - ucast len"
    unfolding write_bytes_fields l by simp
  have un: "unat (prog_nbytes (write_bytes ?bs s)) = unat (prog_nbytes s) - unat len"
    unfolding write_bytes_fields l using unat_nbytes_sub [OF dec] by simp
  have idle: "PROG_STATE_IDLE \<noteq> prog_state s" using st prog_state_distinct by auto
  show ?thesis
  proof (cases "unat len < unat (prog_nbytes s)")
    case True
    then have "length ?bs < unat (prog_nbytes s)" using l by simp
    note keep = write_bytes_state_keep [OF this] fold_write_iter_ret_keep [OF this]
    have nz: "prog_nbytes (write_bytes ?bs s) \<noteq> 0"
      using un True by (auto simp: unat_eq_0)
    have "fold write_iter ?bs (0, s) = (0, write_bytes ?bs s)"
      using keep(2) snd' by (simp add: prod_eq_iff)
    then show ?thesis
      using served nb un nz keep(1) idle by auto
  next
    case False
    then have eq: "length ?bs = unat (prog_nbytes s)" using dec l by simp
    show ?thesis
    proof (cases "len = 0")
      case True
      then show ?thesis using served idle eq by (simp add: write_bytes_Nil)
    next
      case False
      then have "unat len \<noteq> 0" by (simp add: unat_eq_0)
      then have ne: "?bs \<noteq> []" using l by auto
      note fin = fold_write_iter_final [OF eq ne]
      have z: "prog_nbytes (write_bytes ?bs s) = 0"
        using un eq l by (simp add: unat_eq_0)
      have "fold write_iter ?bs (0, s) = (1, write_bytes ?bs s)"
        using fin(1) snd' by (simp add: prod_eq_iff)
      then show ?thesis
        using served nb un z fin(2) False by auto
    qed
  qed
qed

section \<open>The byte count\<close>

text \<open>
  C3, as the claim states it, fails for the reader. After a ReadProgramMemory command for
  16 bytes, a call of \<open>usbFunctionRead\<close> for 8 bytes serves 8 bytes and leaves
  \<open>prog_nbytes\<close> at 16, and a call for 3 bytes serves 3 bytes, leaves \<open>prog_nbytes\<close>
  at 16 and ends the transfer.
\<close>

theorem C3_reader_keeps_count:
  "prog_state read_armed = PROG_STATE_READFLASH
   \<and> prog_nbytes read_armed = 16
   \<and> fst (usbFunctionRead erased_target 8 read_armed) = 8
   \<and> length (fst (snd (usbFunctionRead erased_target 8 read_armed))) = 8
   \<and> prog_nbytes (snd (snd (usbFunctionRead erased_target 8 read_armed))) = 16
   \<and> prog_state (snd (snd (usbFunctionRead erased_target 8 read_armed))) = PROG_STATE_READFLASH
   \<and> fst (usbFunctionRead erased_target 3 read_armed) = 3
   \<and> length (fst (snd (usbFunctionRead erased_target 3 read_armed))) = 3
   \<and> prog_nbytes (snd (snd (usbFunctionRead erased_target 3 read_armed))) = 16
   \<and> prog_state (snd (snd (usbFunctionRead erased_target 3 read_armed))) = PROG_STATE_IDLE"
  by (simp add: usbFunctionRead_def Let_def read_loop_fields read_armed_eq
      PROG_STATE_IDLE_def PROG_STATE_READFLASH_def PROG_STATE_READEEPROM_def)

text \<open>
  C3, amended. Every pass of the writer's loop decrements \<open>prog_nbytes\<close> by one
  (modulo \<open>2 ^ 16\<close>), and in a write state the pass leaves the state idle exactly when
  it brings \<open>prog_nbytes\<close> to 0. A call of \<open>usbFunctionWrite\<close> in a write state with
  no more bytes than \<open>prog_nbytes\<close> declares is served, decrements \<open>prog_nbytes\<close> by
  its length, ends the transfer exactly when it consumed a byte and \<open>prog_nbytes\<close> is
  0 then, and returns 1 in that case and 0 otherwise. The reader never changes
  \<open>prog_nbytes\<close>; in a read state its call ends the transfer exactly when the
  requested length is below 8. This holds for both revisions.
\<close>

theorem C3_count_down_in_writer_only:
  fixes s :: "'a::len word session"
  shows "prog_nbytes (snd (write_iter b (r, s))) = prog_nbytes s - 1
     \<and> (prog_state s = PROG_STATE_WRITEFLASH \<or> prog_state s = PROG_STATE_WRITEEEPROM
          \<longrightarrow> (prog_state (snd (write_iter b (r, s))) = PROG_STATE_IDLE)
                = (prog_nbytes (snd (write_iter b (r, s))) = 0))
     \<and> ((prog_state s = PROG_STATE_WRITEFLASH \<or> prog_state s = PROG_STATE_WRITEEEPROM)
            \<and> unat len \<le> length data \<and> unat len \<le> unat (prog_nbytes s)
          \<longrightarrow> (\<exists>ret s'. usbFunctionWrite data len s = Some (ret, s')
                \<and> prog_nbytes s' = prog_nbytes s - ucast len
                \<and> unat (prog_nbytes s') = unat (prog_nbytes s) - unat len
                \<and> (prog_state s' = PROG_STATE_IDLE) = (len \<noteq> 0 \<and> prog_nbytes s' = 0)
                \<and> ret = (if len \<noteq> 0 \<and> prog_nbytes s' = 0 then 1 else 0)))
     \<and> prog_nbytes (snd (snd (usbFunctionRead p len s))) = prog_nbytes s
     \<and> (prog_state s = PROG_STATE_READFLASH \<or> prog_state s = PROG_STATE_READEEPROM
          \<longrightarrow> (prog_state (snd (snd (usbFunctionRead p len s))) = PROG_STATE_IDLE) = (len < 8))"
proof (intro conjI impI)
  show "prog_nbytes (snd (write_iter b (r, s))) = prog_nbytes s - 1"
    by (simp add: write_iter_fields)
  show "(prog_state (snd (write_iter b (r, s))) = PROG_STATE_IDLE)
                = (prog_nbytes (snd (write_iter b (r, s))) = 0)"
    if "prog_state s = PROG_STATE_WRITEFLASH \<or> prog_state s = PROG_STATE_WRITEEEPROM"
    using that prog_state_distinct by (auto simp add: write_iter_state write_iter_fields)
  show "\<exists>ret s'. usbFunctionWrite data len s = Some (ret, s')
                \<and> prog_nbytes s' = prog_nbytes s - ucast len
                \<and> unat (prog_nbytes s') = unat (prog_nbytes s) - unat len
                \<and> (prog_state s' = PROG_STATE_IDLE) = (len \<noteq> 0 \<and> prog_nbytes s' = 0)
                \<and> ret = (if len \<noteq> 0 \<and> prog_nbytes s' = 0 then 1 else 0)"
    if "(prog_state s = PROG_STATE_WRITEFLASH \<or> prog_state s = PROG_STATE_WRITEEEPROM)
            \<and> unat len \<le> length data \<and> unat len \<le> unat (prog_nbytes s)"
    using usbFunctionWrite_within [of s len data] that by blast
  show "prog_nbytes (snd (snd (usbFunctionRead p len s))) = prog_nbytes s"
    by (simp add: usbFunctionRead_def Let_def read_loop_fields)
  show "(prog_state (snd (snd (usbFunctionRead p len s))) = PROG_STATE_IDLE) = (len < 8)"
    if "prog_state s = PROG_STATE_READFLASH \<or> prog_state s = PROG_STATE_READEEPROM"
    using that prog_state_distinct
    by (auto simp add: usbFunctionRead_def Let_def read_loop_fields)
qed

lemma write_armed_eq:
  "write_armed = power_up\<lparr>prog_state := PROG_STATE_WRITEFLASH, prog_nbytes := 3,
                           usbMsgPtr := Msg_replyBuffer\<rparr>"
proof -
  have "bRequest (vendor_cmd USBASP_FUNC_WRITEFLASH 0 0 0 0 3 0) = USBASP_FUNC_WRITEFLASH"
    by (simp add: vendor_cmd_def)
  note a = arm_writeflash [OF vendor_not_hid this, of erased_target power_up]
  show ?thesis unfolding write_armed_def a
    by (simp add: vendor_cmd_def power_up_def legacy_address_def nbytes_field_def
        int_of_bytes_def PROG_BLOCKFLAG_FIRST_def)
qed

theorem C3_count_down_in_writer_only_witness:
  "prog_state write_armed = PROG_STATE_WRITEFLASH
   \<and> unat (3 :: uchar) \<le> length [7, 8, 9 :: uchar]
   \<and> unat (3 :: uchar) \<le> unat (prog_nbytes write_armed)
   \<and> (\<exists>s'. usbFunctionWrite [7, 8, 9] 3 write_armed = Some (1, s')
          \<and> prog_nbytes s' = 0 \<and> prog_state s' = PROG_STATE_IDLE)
   \<and> prog_state read_armed = PROG_STATE_READFLASH
   \<and> prog_nbytes (snd (snd (usbFunctionRead erased_target 3 read_armed))) = 16
   \<and> prog_state (snd (snd (usbFunctionRead erased_target 3 read_armed))) = PROG_STATE_IDLE"
proof -
  have w: "prog_state write_armed = PROG_STATE_WRITEFLASH"
    "unat (3 :: uchar) \<le> length [7, 8, 9 :: uchar]"
    "unat (3 :: uchar) \<le> unat (prog_nbytes write_armed)"
    "prog_nbytes write_armed - ucast (3 :: uchar) = 0"
    by (simp_all add: write_armed_eq)
  have r: "prog_state read_armed = PROG_STATE_READFLASH" "prog_nbytes read_armed = 16"
    by (simp_all add: read_armed_eq)
  note c = C3_count_down_in_writer_only [of 0 0 write_armed 3 "[7, 8, 9]" erased_target]
  note c' = C3_count_down_in_writer_only [of 0 0 read_armed 3 "[]" erased_target]
  from c w obtain ret s' where s': "usbFunctionWrite [7, 8, 9] 3 write_armed = Some (ret, s')"
    "prog_nbytes s' = prog_nbytes write_armed - ucast (3 :: uchar)"
    "(prog_state s' = PROG_STATE_IDLE) = ((3 :: uchar) \<noteq> 0 \<and> prog_nbytes s' = 0)"
    "ret = (if (3 :: uchar) \<noteq> 0 \<and> prog_nbytes s' = 0 then 1 else 0)"
    by blast
  have "usbFunctionWrite [7, 8, 9] 3 write_armed = Some (1, s')
          \<and> prog_nbytes s' = 0 \<and> prog_state s' = PROG_STATE_IDLE"
    using s' w(4) by simp
  moreover have "prog_nbytes (snd (snd (usbFunctionRead erased_target 3 read_armed))) = 16"
    "prog_state (snd (snd (usbFunctionRead erased_target 3 read_armed))) = PROG_STATE_IDLE"
    using c' r by simp_all
  ultimately show ?thesis using w r by blast
qed

lemma transfer_addrs_append: "transfer_addrs (xs @ ys) = transfer_addrs xs @ transfer_addrs ys"
  by (induction xs rule: transfer_addrs.induct) simp_all

lemma eeprom_writes_append: "eeprom_writes (xs @ ys) = eeprom_writes xs @ eeprom_writes ys"
  by (induction xs rule: eeprom_writes.induct) simp_all

lemma address_continuousI:
  assumes "isp_log s' = isp_log s @ new"
      and "transfer_addrs new = map (\<lambda>i. prog_address s + of_nat i) [0..<n]"
      and "prog_address s' = prog_address s + of_nat n"
  shows "address_continuous s s'" "bytes_transferred s s' = n" "calls_since s s' = new"
proof -
  show c: "calls_since s s' = new" by (simp add: calls_since_def assms(1))
  show n: "bytes_transferred s s' = n" by (simp add: bytes_transferred_def c assms(2))
  show "address_continuous s s'"
    unfolding address_continuous_def n c using assms by simp
qed

lemma address_continuousD:
  assumes "address_continuous s s'"
  shows "isp_log s' = isp_log s @ calls_since s s'"
    and "transfer_addrs (calls_since s s')
          = map (\<lambda>i. prog_address s + of_nat i) [0..<bytes_transferred s s']"
    and "prog_address s' = prog_address s + of_nat (bytes_transferred s s')"
proof -
  have "take (length (isp_log s)) (isp_log s') = isp_log s"
    using assms by (simp add: address_continuous_def)
  then show "isp_log s' = isp_log s @ calls_since s s'"
    unfolding calls_since_def by (metis append_take_drop_id)
qed (use assms in \<open>simp_all add: address_continuous_def\<close>)

lemma address_continuous_refl: "address_continuous s s" "bytes_transferred s s = 0"
  by (simp_all add: address_continuous_def bytes_transferred_def calls_since_def)

lemma map_addr_upt_add:
  "map (\<lambda>i. (a :: 'a::len word) + of_nat i) [0..<n + m]
     = map (\<lambda>i. a + of_nat i) [0..<n] @ map (\<lambda>i. a + of_nat n + of_nat i) [0..<m]"
proof (induction m)
  case 0
  show ?case by simp
next
  case (Suc m)
  then show ?case by (simp add: algebra_simps)
qed

lemma address_continuous_trans:
  fixes s :: "'a::len word session"
  assumes "address_continuous s s1" "address_continuous s1 s2"
  shows "address_continuous s s2"
    and "bytes_transferred s s2 = bytes_transferred s s1 + bytes_transferred s1 s2"
proof -
  note a = address_continuousD [OF assms(1)] and b = address_continuousD [OF assms(2)]
  let ?n = "bytes_transferred s s1" and ?m = "bytes_transferred s1 s2"
  have l: "isp_log s2 = isp_log s @ (calls_since s s1 @ calls_since s1 s2)"
    using a(1) b(1) by simp
  have t: "transfer_addrs (calls_since s s1 @ calls_since s1 s2)
      = map (\<lambda>i. prog_address s + of_nat i) [0..<?n + ?m]"
    unfolding transfer_addrs_append map_addr_upt_add a(2) b(2) a(3) ..
  have p: "prog_address s2 = prog_address s + of_nat (?n + ?m)"
    using a(3) b(3) by simp
  show "address_continuous s s2" "bytes_transferred s s2 = ?n + ?m"
    using address_continuousI [OF l t p] by simp_all
qed

lemma write_iter_calls:
  "\<exists>new. isp_log (snd (write_iter b (r, t))) = isp_log t @ new
     \<and> transfer_addrs new = [prog_address t]"
  by (simp add: write_iter_log write_store_log transfer_addrs_append)

lemma write_bytes_calls:
  "\<exists>new. isp_log (write_bytes bs s) = isp_log s @ new
     \<and> transfer_addrs new = map (\<lambda>i. prog_address s + of_nat i) [0..<length bs]"
proof (induction bs rule: rev_induct)
  case Nil
  show ?case by (simp add: write_bytes_Nil)
next
  case (snoc b bs)
  then obtain new where n: "isp_log (write_bytes bs s) = isp_log s @ new"
    "transfer_addrs new = map (\<lambda>i. prog_address s + of_nat i) [0..<length bs]" by blast
  obtain new1 where n1: "isp_log (snd (write_iter b (0, write_bytes bs s)))
       = isp_log (write_bytes bs s) @ new1"
    "transfer_addrs new1 = [prog_address (write_bytes bs s)]"
    using write_iter_calls by blast
  have "isp_log (write_bytes (bs @ [b]) s) = isp_log s @ (new @ new1)"
    by (simp add: write_bytes_snoc n1(1) n(1))
  moreover have "transfer_addrs (new @ new1)
      = map (\<lambda>i. prog_address s + of_nat i) [0..<length (bs @ [b])]"
    by (simp add: transfer_addrs_append n(2) n1(2) write_bytes_fields)
  ultimately show ?case by blast
qed

lemma write_bytes_continuous:
  "address_continuous s (write_bytes bs s)" "bytes_transferred s (write_bytes bs s) = length bs"
proof -
  obtain new where n: "isp_log (write_bytes bs s) = isp_log s @ new"
    "transfer_addrs new = map (\<lambda>i. prog_address s + of_nat i) [0..<length bs]"
    using write_bytes_calls by blast
  have p: "prog_address (write_bytes bs s) = prog_address s + of_nat (length bs)"
    by (simp add: write_bytes_fields)
  show "address_continuous s (write_bytes bs s)"
    "bytes_transferred s (write_bytes bs s) = length bs"
    using address_continuousI [OF n p] by simp_all
qed

lemma usbFunctionWrite_cases:
  assumes "usbFunctionWrite data len s = Some (r, s')"
  shows "s' = s \<or> s' = write_bytes (take (unat len) data) s"
  using assms by (auto simp: usbFunctionWrite_def write_bytes_def split: if_splits)

lemma usbFunctionWrite_continuous:
  assumes "usbFunctionWrite data len s = Some (r, s')"
  shows "address_continuous s s'"
  using usbFunctionWrite_cases [OF assms] address_continuous_refl(1) write_bytes_continuous(1)
  by auto

lemma write_chunks_continuous:
  "write_chunks cs s = Some (rs, s') \<Longrightarrow> address_continuous s s'"
proof (induction cs arbitrary: s rs)
  case Nil
  then show ?case by (simp add: address_continuous_refl)
next
  case (Cons c cs)
  from Cons.prems obtain r s1 rs1 where
    a: "usbFunctionWrite c (of_nat (length c)) s = Some (r, s1)"
    and b: "write_chunks cs s1 = Some (rs1, s')"
    by (auto split: option.splits)
  from usbFunctionWrite_continuous [OF a] Cons.IH [OF b]
  show ?case by (rule address_continuous_trans)
qed

lemma read_iter_calls:
  "\<exists>c. isp_log (snd (read_iter p s)) = isp_log s @ [c] \<and> transfer_addrs [c] = [prog_address s]"
  by (simp add: read_iter_def Let_def isp_call_def)

lemma read_loop_calls:
  "\<exists>new. isp_log (snd (read_loop p k s)) = isp_log s @ new
     \<and> transfer_addrs new = map (\<lambda>i. prog_address s + of_nat i) [0..<k]"
proof (induction k arbitrary: s)
  case 0
  show ?case by simp
next
  case (Suc k)
  let ?s1 = "snd (read_iter p s)"
  obtain c where c: "isp_log ?s1 = isp_log s @ [c]" "transfer_addrs [c] = [prog_address s]"
    using read_iter_calls by blast
  obtain new where n: "isp_log (snd (read_loop p k ?s1)) = isp_log ?s1 @ new"
    "transfer_addrs new = map (\<lambda>i. prog_address ?s1 + of_nat i) [0..<k]"
    using Suc.IH by blast
  have "isp_log (snd (read_loop p (Suc k) s)) = isp_log s @ ([c] @ new)"
    by (simp add: Let_def n(1) c(1))
  moreover have "transfer_addrs ([c] @ new)
      = map (\<lambda>i. prog_address s + of_nat i) [0..<Suc k]"
    unfolding transfer_addrs_append c(2) n(2) read_iter_fields
    using map_addr_upt_add [of "prog_address s" 1 k] by simp
  ultimately show ?case by blast
qed

lemma usbFunctionRead_continuous:
  "address_continuous s (snd (snd (usbFunctionRead p len s)))"
proof (cases "prog_state s \<noteq> PROG_STATE_READFLASH \<and> prog_state s \<noteq> PROG_STATE_READEEPROM")
  case True
  then show ?thesis by (simp add: usbFunctionRead_def address_continuous_refl)
next
  case False
  let ?s' = "snd (snd (usbFunctionRead p len s))"
  obtain new where n: "isp_log (snd (read_loop p (unat len) s)) = isp_log s @ new"
    "transfer_addrs new = map (\<lambda>i. prog_address s + of_nat i) [0..<unat len]"
    using read_loop_calls by blast
  have l: "isp_log ?s' = isp_log s @ new"
    using False n(1) by (auto simp add: usbFunctionRead_def Let_def)
  have p: "prog_address ?s' = prog_address s + of_nat (unat len)"
    using False by (auto simp add: usbFunctionRead_def Let_def read_loop_fields)
  show ?thesis using address_continuousI(1) [OF l n(2) p] .
qed

lemma read_chunks_continuous:
  "address_continuous s (snd (read_chunks p lens s))"
proof (induction lens arbitrary: s)
  case Nil
  show ?case by (simp add: address_continuous_refl)
next
  case (Cons len lens)
  have "snd (read_chunks p (len # lens) s)
      = snd (read_chunks p lens (snd (snd (usbFunctionRead p len s))))"
    by (simp add: Let_def)
  with address_continuous_trans(1) [OF usbFunctionRead_continuous Cons.IH]
  show ?case by simp
qed

lemma usbFunctionRead_served:
  assumes "prog_state s = PROG_STATE_READFLASH \<or> prog_state s = PROG_STATE_READEEPROM"
  shows "bytes_transferred s (snd (snd (usbFunctionRead p len s))) = unat len"
    and "prog_address (snd (snd (usbFunctionRead p len s))) = prog_address s + ucast len"
    and "8 \<le> len \<Longrightarrow> prog_state (snd (snd (usbFunctionRead p len s))) = prog_state s"
proof -
  let ?s' = "snd (snd (usbFunctionRead p len s))"
  obtain new where n: "isp_log (snd (read_loop p (unat len) s)) = isp_log s @ new"
    "transfer_addrs new = map (\<lambda>i. prog_address s + of_nat i) [0..<unat len]"
    using read_loop_calls by blast
  have l: "isp_log ?s' = isp_log s @ new"
    using assms n(1) by (auto simp add: usbFunctionRead_def Let_def)
  have p: "prog_address ?s' = prog_address s + of_nat (unat len)"
    using assms by (auto simp add: usbFunctionRead_def Let_def read_loop_fields)
  show "bytes_transferred s ?s' = unat len"
    using address_continuousI(2) [OF l n(2) p] .
  show "prog_address ?s' = prog_address s + ucast len"
    using p by simp
  show "prog_state ?s' = prog_state s" if "8 \<le> len"
    using assms that by (auto simp add: usbFunctionRead_def Let_def read_loop_fields)
qed

lemma read_chunks_served:
  assumes "prog_state s = PROG_STATE_READFLASH \<or> prog_state s = PROG_STATE_READEEPROM"
      and "\<forall>len\<in>set (butlast lens). 8 \<le> len"
  shows "bytes_transferred s (snd (read_chunks p lens s)) = sum_list (map unat lens)"
  using assms
proof (induction lens arbitrary: s)
  case Nil
  show ?case by (simp add: address_continuous_refl)
next
  case (Cons len lens)
  let ?s1 = "snd (snd (usbFunctionRead p len s))"
  have e: "snd (read_chunks p (len # lens) s) = snd (read_chunks p lens ?s1)"
    by (simp add: Let_def)
  have b: "bytes_transferred s (snd (read_chunks p (len # lens) s))
      = unat len + bytes_transferred ?s1 (snd (read_chunks p lens ?s1))"
  proof -
    have c1: "address_continuous s ?s1" by (rule usbFunctionRead_continuous)
    have c2: "address_continuous ?s1 (snd (read_chunks p lens ?s1))"
      by (rule read_chunks_continuous)
    have n1: "bytes_transferred s ?s1 = unat len"
      using Cons.prems(1) by (rule usbFunctionRead_served(1))
    show ?thesis
      unfolding e using address_continuous_trans(2) [OF c1 c2] n1 by simp
  qed
  show ?case
  proof (cases lens)
    case Nil
    then show ?thesis using b by (simp add: address_continuous_refl)
  next
    case (Cons a list)
    then have "8 \<le> len" and r: "\<forall>len\<in>set (butlast lens). 8 \<le> len"
      using Cons.prems(2) by simp_all
    have "prog_state ?s1 = prog_state s"
      using Cons.prems(1) \<open>8 \<le> len\<close> by (rule usbFunctionRead_served(3))
    then have "prog_state ?s1 = PROG_STATE_READFLASH \<or> prog_state ?s1 = PROG_STATE_READEEPROM"
      using Cons.prems(1) by simp
    from Cons.IH [OF this r] b show ?thesis by simp
  qed
qed

section \<open>Address continuity\<close>

text \<open>
  C5. Whatever the chunks, between the state before a sequence of calls of
  \<open>usbFunctionWrite\<close>, or of \<open>usbFunctionRead\<close>, and the state after it the address
  is continuous (\<open>address_continuous\<close>): the bytes transferred went to the addresses
  \<open>prog_address\<close>, \<open>prog_address + 1\<close>, ... in order, and \<open>prog_address\<close> has grown
  by their number. The number is the number of bytes handed over when the writer is in a
  write state and gets no more bytes than declared, and the sum of the requested lengths
  when the reader starts in a read state and only the last chunk is short. Every pass of
  the writer's loop, in any state and so on each branch, and every pass of the reader's
  loop adds 1 to \<open>prog_address\<close>. Addition is that of the address type, modulo
  \<open>2 ^ 32\<close> in the later revision and \<open>2 ^ 16\<close> in the earlier.
\<close>

theorem C5_address_continuity:
  fixes s :: "'a::len word session"
  shows "(write_chunks cs s = Some (rs, s') \<longrightarrow> address_continuous s s')
     \<and> address_continuous s (snd (read_chunks p lens s))
     \<and> ((\<forall>c\<in>set cs. length c < 256)
          \<and> (prog_state s = PROG_STATE_WRITEFLASH \<or> prog_state s = PROG_STATE_WRITEEEPROM)
          \<and> length (concat cs) \<le> unat (prog_nbytes s)
         \<longrightarrow> (\<exists>rs' s''. write_chunks cs s = Some (rs', s'')
                \<and> bytes_transferred s s'' = length (concat cs)
                \<and> prog_address s'' = prog_address s + of_nat (length (concat cs))))
     \<and> ((prog_state s = PROG_STATE_READFLASH \<or> prog_state s = PROG_STATE_READEEPROM)
          \<and> (\<forall>len\<in>set (butlast lens). 8 \<le> len)
         \<longrightarrow> bytes_transferred s (snd (read_chunks p lens s)) = sum_list (map unat lens)
             \<and> prog_address (snd (read_chunks p lens s))
                 = prog_address s + of_nat (sum_list (map unat lens)))
     \<and> prog_address (snd (write_iter b (r, s))) = prog_address s + 1
     \<and> prog_address (snd (read_iter p s)) = prog_address s + 1"
proof (intro conjI impI)
  show "address_continuous s s'" if "write_chunks cs s = Some (rs, s')"
    using that by (rule write_chunks_continuous)
  show "address_continuous s (snd (read_chunks p lens s))"
    by (rule read_chunks_continuous)
  show "\<exists>rs' s''. write_chunks cs s = Some (rs', s'')
                \<and> bytes_transferred s s'' = length (concat cs)
                \<and> prog_address s'' = prog_address s + of_nat (length (concat cs))"
    if "(\<forall>c\<in>set cs. length c < 256)
          \<and> (prog_state s = PROG_STATE_WRITEFLASH \<or> prog_state s = PROG_STATE_WRITEEEPROM)
          \<and> length (concat cs) \<le> unat (prog_nbytes s)"
  proof -
    from that have h: "\<forall>c\<in>set cs. length c < 256"
      "prog_state s = PROG_STATE_WRITEFLASH \<or> prog_state s = PROG_STATE_WRITEEEPROM"
      "length (concat cs) \<le> unat (prog_nbytes s)"
      by blast+
    obtain rs' where "write_chunks cs s = Some (rs', write_bytes (concat cs) s)"
      using write_chunks_declared [OF h] by blast
    then show ?thesis
      using write_bytes_continuous(2) [of s "concat cs"] write_bytes_fields(2) [of "concat cs" s]
      by blast
  qed
  show "bytes_transferred s (snd (read_chunks p lens s)) = sum_list (map unat lens)"
    if "(prog_state s = PROG_STATE_READFLASH \<or> prog_state s = PROG_STATE_READEEPROM)
          \<and> (\<forall>len\<in>set (butlast lens). 8 \<le> len)"
    using that read_chunks_served by blast
  show "prog_address (snd (read_chunks p lens s))
                 = prog_address s + of_nat (sum_list (map unat lens))"
    if "(prog_state s = PROG_STATE_READFLASH \<or> prog_state s = PROG_STATE_READEEPROM)
          \<and> (\<forall>len\<in>set (butlast lens). 8 \<le> len)"
  proof -
    have "address_continuous s (snd (read_chunks p lens s))" by (rule read_chunks_continuous)
    from address_continuousD(3) [OF this] that show ?thesis
      by (simp add: read_chunks_served)
  qed
  show "prog_address (snd (write_iter b (r, s))) = prog_address s + 1"
    by (simp add: write_iter_fields)
  show "prog_address (snd (read_iter p s)) = prog_address s + 1"
    by (simp add: read_iter_fields)
qed

theorem C5_address_continuity_witness:
  "length [7 :: uchar] < 256 \<and> length [8, 9 :: uchar] < 256
   \<and> prog_state write_armed = PROG_STATE_WRITEFLASH
   \<and> length (concat [[7], [8, 9 :: uchar]]) \<le> unat (prog_nbytes write_armed)
   \<and> (\<exists>rs s'. write_chunks [[7], [8, 9]] write_armed = Some (rs, s')
         \<and> address_continuous write_armed s' \<and> bytes_transferred write_armed s' = 3
         \<and> prog_address s' = 3)
   \<and> prog_state read_armed = PROG_STATE_READFLASH
   \<and> butlast [8, 3 :: uchar] = [8] \<and> (8 :: uchar) \<le> 8
   \<and> address_continuous read_armed (snd (read_chunks erased_target [8, 3] read_armed))
   \<and> bytes_transferred read_armed (snd (read_chunks erased_target [8, 3] read_armed)) = 11
   \<and> prog_address (snd (read_chunks erased_target [8, 3] read_armed)) = 11"
proof -
  have w: "\<forall>c\<in>set [[7], [8, 9 :: uchar]]. length c < 256"
    "prog_state write_armed = PROG_STATE_WRITEFLASH"
    "length (concat [[7], [8, 9 :: uchar]]) \<le> unat (prog_nbytes write_armed)"
    "prog_address write_armed = 0"
    by (simp_all add: write_armed_eq power_up_def)
  have r: "prog_state read_armed = PROG_STATE_READFLASH"
    "\<forall>len\<in>set (butlast [8, 3 :: uchar]). 8 \<le> len" "prog_address read_armed = 0"
    by (simp_all add: read_armed_eq power_up_def)
  note cw = C5_address_continuity [of "[[7], [8, 9]]" write_armed _ _ erased_target "[]" 0 0]
  note cr = C5_address_continuity [of "[]" read_armed "[]" read_armed erased_target "[8, 3]" 0 0]
  from cw w obtain rs s' where s': "write_chunks [[7], [8, 9]] write_armed = Some (rs, s')"
    "bytes_transferred write_armed s' = length (concat [[7], [8, 9 :: uchar]])"
    "prog_address s' = prog_address write_armed + of_nat (length (concat [[7], [8, 9 :: uchar]]))"
    by blast
  have "address_continuous write_armed s'"
    using C5_address_continuity [of "[[7], [8, 9]]" write_armed rs s' erased_target "[]" 0 0] s'(1)
    by blast
  then have a: "\<exists>rs s'. write_chunks [[7], [8, 9]] write_armed = Some (rs, s')
         \<and> address_continuous write_armed s' \<and> bytes_transferred write_armed s' = 3
         \<and> prog_address s' = 3"
    using s' w(4) by auto
  have b: "address_continuous read_armed (snd (read_chunks erased_target [8, 3] read_armed))"
    "bytes_transferred read_armed (snd (read_chunks erased_target [8, 3] read_armed)) = 11"
    "prog_address (snd (read_chunks erased_target [8, 3] read_armed)) = 11"
    using cr r by simp_all
  from w(2,3) a r(1) b show ?thesis by simp
qed

lemma write_iter_flash_no_eeprom:
  "prog_state t = PROG_STATE_WRITEFLASH \<Longrightarrow>
     eeprom_writes (isp_log (snd (write_iter b (r, t)))) = eeprom_writes (isp_log t)"
  by (simp add: write_iter_log write_store_log eeprom_writes_append)

lemma flash_run_no_eeprom:
  assumes "prog_state s = PROG_STATE_WRITEFLASH"
  shows "length bs \<le> unat (prog_nbytes s) \<Longrightarrow>
     eeprom_writes (isp_log (write_bytes bs s)) = eeprom_writes (isp_log s)"
proof (induction bs rule: rev_induct)
  case Nil
  show ?case by (simp add: write_bytes_Nil)
next
  case (snoc b bs)
  then have l: "length bs < unat (prog_nbytes s)" by simp
  have "prog_state (write_bytes bs s) = PROG_STATE_WRITEFLASH"
    using write_bytes_state_keep [OF l] assms by simp
  from write_iter_flash_no_eeprom [OF this] snoc.IH l show ?case
    by (simp add: write_bytes_snoc)
qed

lemma eeprom_writes_calls_since:
  assumes "address_continuous s s'" "eeprom_writes (isp_log s') = eeprom_writes (isp_log s)"
  shows "eeprom_writes (calls_since s s') = []"
proof -
  have "eeprom_writes (isp_log s') = eeprom_writes (isp_log s) @ eeprom_writes (calls_since s s')"
    using address_continuousD(1) [OF assms(1)] eeprom_writes_append by metis
  with assms(2) show ?thesis by simp
qed

lemma of_nat_uint_nonzero: "0 < n \<Longrightarrow> n < 65536 \<Longrightarrow> (of_nat n :: uint) \<noteq> 0"
proof
  assume "0 < n" "n < 65536" "(of_nat n :: uint) = 0"
  then have "unat (of_nat n :: uint) = 0" by simp
  moreover have "unat (of_nat n :: uint) = n"
    using \<open>n < 65536\<close> by (simp add: unat_of_nat)
  ultimately show False using \<open>0 < n\<close> by simp
qed

lemma write_iter_idle:
  assumes "prog_state T \<noteq> PROG_STATE_WRITEFLASH" "prog_nbytes T - 1 \<noteq> 0"
  shows "snd (write_iter b (r, T)) =
      T\<lparr>prog_address := prog_address T + 1, prog_nbytes := prog_nbytes T - 1,
        isp_log := isp_log T @ [IspWriteEEPROM (prog_address T) b]\<rparr>"
  using assms
  by (simp add: write_iter_def write_count_def write_store_def isp_call_def Let_def)

lemma idle_run:
  fixes s :: "'a::len word session"
  assumes st: "prog_state s \<noteq> PROG_STATE_WRITEFLASH" and z: "prog_nbytes s = 0"
  shows "length bs < 65536 \<Longrightarrow>
     write_bytes bs s =
       s\<lparr>prog_address := prog_address s + of_nat (length bs),
         prog_nbytes := - of_nat (length bs),
         isp_log := isp_log s @ map (\<lambda>i. IspWriteEEPROM (prog_address s + of_nat i) (bs ! i))
                                    [0..<length bs]\<rparr>
     \<and> fst (fold write_iter bs (r, s)) = r"
proof (induction bs rule: rev_induct)
  case Nil
  show ?case using z by (simp add: write_bytes_Nil)
next
  case (snoc b bs)
  then have ih: "write_bytes bs s =
       s\<lparr>prog_address := prog_address s + of_nat (length bs),
         prog_nbytes := - of_nat (length bs),
         isp_log := isp_log s @ map (\<lambda>i. IspWriteEEPROM (prog_address s + of_nat i) (bs ! i))
                                    [0..<length bs]\<rparr>"
    and ihr: "fst (fold write_iter bs (r, s)) = r" by simp_all
  have "(of_nat (Suc (length bs)) :: uint) \<noteq> 0"
    using snoc.prems by (intro of_nat_uint_nonzero) simp_all
  moreover have e2: "- (of_nat (length bs) :: uint) - 1 = - of_nat (Suc (length bs))"
    by simp
  ultimately have nz: "- (of_nat (length bs) :: uint) - 1 \<noteq> 0"
    by (simp only: e2 neg_equal_0_iff_equal not_False_eq_True)
  have e1: "prog_address s + of_nat (length bs) + 1 = prog_address s + of_nat (Suc (length bs))"
    by simp
  have m: "map (\<lambda>i. IspWriteEEPROM (prog_address s + of_nat i) ((bs @ [b]) ! i)) [0..<length bs]
      = map (\<lambda>i. IspWriteEEPROM (prog_address s + of_nat i) (bs ! i)) [0..<length bs]"
    by (rule map_cong) (simp_all add: nth_append)
  have ret: "fst (fold write_iter (bs @ [b]) (r, s)) = r"
    unfolding fold_write_iter_snoc ihr using nz by (simp add: write_iter_ret ih)
  have T: "prog_state (write_bytes bs s) \<noteq> PROG_STATE_WRITEFLASH"
    "prog_nbytes (write_bytes bs s) - 1 \<noteq> 0"
    using st nz by (simp_all add: ih)
  have "write_bytes (bs @ [b]) s =
      (write_bytes bs s)\<lparr>prog_address := prog_address (write_bytes bs s) + 1,
         prog_nbytes := prog_nbytes (write_bytes bs s) - 1,
         isp_log := isp_log (write_bytes bs s)
            @ [IspWriteEEPROM (prog_address (write_bytes bs s)) b]\<rparr>"
    unfolding write_bytes_snoc using T by (rule write_iter_idle)
  also have "\<dots> =
       s\<lparr>prog_address := prog_address s + of_nat (Suc (length bs)),
         prog_nbytes := - of_nat (Suc (length bs)),
         isp_log := isp_log s @ map (\<lambda>i. IspWriteEEPROM (prog_address s + of_nat i) ((bs @ [b]) ! i))
                                    [0..<Suc (length bs)]\<rparr>"
    unfolding ih by (simp add: m e1 e2 del: of_nat_Suc)
  finally have "write_bytes (bs @ [b]) s =
       s\<lparr>prog_address := prog_address s + of_nat (length (bs @ [b])),
         prog_nbytes := - of_nat (length (bs @ [b])),
         isp_log := isp_log s @ map (\<lambda>i. IspWriteEEPROM (prog_address s + of_nat i) ((bs @ [b]) ! i))
                                    [0..<length (bs @ [b])]\<rparr>"
    by (simp del: of_nat_Suc upt_Suc)
  with ret show ?case by simp
qed

lemma eeprom_writes_map:
  "eeprom_writes (map (\<lambda>i. IspWriteEEPROM (f i) (g i)) xs) = map (\<lambda>i. IspWriteEEPROM (f i) (g i)) xs"
  by (induction xs) simp_all

lemma unat_uint_sub_wrap:
  assumes "unat (N :: uint) < unat (l :: uchar)"
  shows "unat (N - ucast l) = 65536 + unat N - unat l"
proof -
  have u: "unat (ucast l :: uint) = unat l"
    using unat_uchar_less [of l] by (simp add: unsigned_ucast_eq take_bit_eq_mod)
  show ?thesis
    using assms by (simp add: unat_sub_if_size u word_size)
qed

lemma overrun_calls:
  fixes a :: "'a::len word"
  assumes "r0 \<le> n" "n \<le> length data"
  shows "map (\<lambda>i. IspWriteEEPROM (a + of_nat r0 + of_nat i) (drop r0 (take n data) ! i))
             [0..<length (drop r0 (take n data))]
       = map (\<lambda>i. IspWriteEEPROM (a + of_nat i) (data ! i)) [r0..<n]"
proof -
  have l: "length (drop r0 (take n data)) = n - r0" using assms by simp
  have "[r0..<n] = map (\<lambda>i. i + r0) [0..<n - r0]"
    using assms(1) by (simp add: map_add_upt)
  then have "map (\<lambda>i. IspWriteEEPROM (a + of_nat i) (data ! i)) [r0..<n]
      = map (\<lambda>i. IspWriteEEPROM (a + of_nat (i + r0)) (data ! (i + r0))) [0..<n - r0]"
    by (simp only: map_map comp_def)
  also have "\<dots> = map (\<lambda>i. IspWriteEEPROM (a + of_nat r0 + of_nat i) (drop r0 (take n data) ! i))
             [0..<n - r0]"
    using assms by (intro map_cong) (simp_all add: algebra_simps)
  finally show ?thesis unfolding l by simp
qed

lemma writer_overrun:
  fixes s :: "'a::len word session"
  assumes st: "prog_state s = PROG_STATE_WRITEFLASH"
      and buf: "unat len \<le> length data"
      and pos: "0 < unat (prog_nbytes s)"
      and exc: "unat (prog_nbytes s) < unat len"
  shows "\<exists>s'. usbFunctionWrite data len s = Some (1, s')
     \<and> prog_state (write_bytes (take (unat (prog_nbytes s)) data) s) = PROG_STATE_IDLE
     \<and> prog_state s' = PROG_STATE_IDLE
     \<and> bytes_transferred s s' = unat len
     \<and> eeprom_writes (calls_since s s')
          = map (\<lambda>i. IspWriteEEPROM (prog_address s + of_nat i) (data ! i))
                [unat (prog_nbytes s)..<unat len]
     \<and> prog_nbytes s' = prog_nbytes s - ucast len
     \<and> unat (prog_nbytes s') = 65536 + unat (prog_nbytes s) - unat len"
proof -
  let ?r0 = "unat (prog_nbytes s)"
  let ?bs = "take (unat len) data"
  let ?first = "take ?r0 data" and ?rest = "drop ?r0 ?bs"
  let ?s1 = "write_bytes ?first s"
  let ?s' = "write_bytes ?bs s"
  have split: "?bs = ?first @ ?rest"
  proof -
    have "take ?r0 ?bs = ?first" using exc by (simp add: min_def)
    then show ?thesis using append_take_drop_id [of ?r0 ?bs] by simp
  qed
  have lf: "length ?first = ?r0" using exc buf by simp
  have nef: "?first \<noteq> []" using lf pos by auto
  have lb: "length ?bs = unat len" using buf by simp
  have "unat len < 256" by (rule unat_uchar_less)
  then have lr: "length ?rest < 65536" by simp
  note fin = fold_write_iter_final [OF lf nef]
  have z1: "prog_nbytes ?s1 = 0"
    unfolding write_bytes_fields lf by simp
  have i1: "prog_state ?s1 \<noteq> PROG_STATE_WRITEFLASH"
    using fin(2) prog_state_distinct(1) by simp
  note idle = idle_run [OF i1 z1 lr]
  have s': "?s' = write_bytes ?rest ?s1"
    using write_bytes_append [of ?first ?rest s] split by simp
  have pair1: "fold write_iter ?first (0, s) = (1, ?s1)"
    using fin(1) [of 0] by (simp add: prod_eq_iff write_bytes_def)
  have "fold write_iter ?bs (0, s) = fold write_iter ?rest (fold write_iter ?first (0, s))"
    using split fold_append [of write_iter ?first ?rest] by (metis comp_apply)
  then have fold': "fold write_iter ?bs (0, s) = fold write_iter ?rest (1, ?s1)"
    by (simp only: pair1)
  have "fst (fold write_iter ?bs (0, s)) = 1"
    unfolding fold' using idle [of 1] by simp
  moreover have "snd (fold write_iter ?bs (0, s)) = ?s'"
    by (simp add: write_bytes_def)
  ultimately have pair: "fold write_iter ?bs (0, s) = (1, ?s')"
    by (simp add: prod_eq_iff)
  have served: "usbFunctionWrite data len s = Some (1, ?s')"
    using usbFunctionWrite_served [of s len data] st buf pair by simp
  have closed: "?s' = ?s1\<lparr>prog_address := prog_address ?s1 + of_nat (length ?rest),
         prog_nbytes := - of_nat (length ?rest),
         isp_log := isp_log ?s1 @ map (\<lambda>i. IspWriteEEPROM (prog_address ?s1 + of_nat i) (?rest ! i))
                                    [0..<length ?rest]\<rparr>"
    unfolding s' using idle [of 0] by blast
  have idle': "prog_state ?s' = PROG_STATE_IDLE"
    by (subst closed) (simp add: fin(2))
  have a1: "prog_address ?s1 = prog_address s + of_nat ?r0"
    unfolding write_bytes_fields lf ..
  have log: "isp_log ?s' = isp_log ?s1
      @ map (\<lambda>i. IspWriteEEPROM (prog_address s + of_nat i) (data ! i)) [?r0..<unat len]"
  proof -
    have "isp_log ?s' = isp_log ?s1 @ map (\<lambda>i. IspWriteEEPROM (prog_address ?s1 + of_nat i) (?rest ! i))
                                    [0..<length ?rest]"
      by (subst closed) simp
    then show ?thesis
      unfolding a1 using overrun_calls [of ?r0 "unat len" data "prog_address s"] exc buf by simp
  qed
  have c1: "address_continuous s ?s1" by (rule write_bytes_continuous)
  have "eeprom_writes (isp_log ?s1) = eeprom_writes (isp_log s)"
    using flash_run_no_eeprom [OF st, of ?first] lf by simp
  note e1 = eeprom_writes_calls_since [OF c1 this]
  have "isp_log ?s' = isp_log s @ (calls_since s ?s1
      @ map (\<lambda>i. IspWriteEEPROM (prog_address s + of_nat i) (data ! i)) [?r0..<unat len])"
    using log address_continuousD(1) [OF c1] by simp
  then have "calls_since s ?s' = calls_since s ?s1
      @ map (\<lambda>i. IspWriteEEPROM (prog_address s + of_nat i) (data ! i)) [?r0..<unat len]"
    by (simp add: calls_since_def)
  then have ee: "eeprom_writes (calls_since s ?s')
      = map (\<lambda>i. IspWriteEEPROM (prog_address s + of_nat i) (data ! i)) [?r0..<unat len]"
    by (simp add: eeprom_writes_append e1 eeprom_writes_map)
  have bt: "bytes_transferred s ?s' = unat len"
    using write_bytes_continuous(2) [of s ?bs] lb by simp
  have "(of_nat (unat len) :: uint) = ucast len" by simp
  then have nb: "prog_nbytes ?s' = prog_nbytes s - ucast len"
    unfolding write_bytes_fields lb by simp
  have un: "unat (prog_nbytes ?s') = 65536 + ?r0 - unat len"
    unfolding nb using exc by (rule unat_uint_sub_wrap)
  from served fin(2) idle' bt ee nb un show ?thesis by blast
qed

lemma writer_confined:
  fixes s :: "'a::len word session"
  assumes st: "prog_state s = PROG_STATE_WRITEFLASH"
      and buf: "unat len \<le> length data"
      and dec: "unat len \<le> unat (prog_nbytes s)"
  shows "\<exists>ret s'. usbFunctionWrite data len s = Some (ret, s')
     \<and> bytes_transferred s s' = unat len
     \<and> eeprom_writes (calls_since s s') = []
     \<and> unat (prog_nbytes s') = unat (prog_nbytes s) - unat len"
proof -
  let ?bs = "take (unat len) data"
  have lb: "length ?bs = unat len" using buf by simp
  obtain ret where r: "usbFunctionWrite data len s = Some (ret, write_bytes ?bs s)"
    "unat (prog_nbytes (write_bytes ?bs s)) = unat (prog_nbytes s) - unat len"
    using usbFunctionWrite_within [of s len data] st buf dec by blast
  have c: "address_continuous s (write_bytes ?bs s)" by (rule write_bytes_continuous)
  have "eeprom_writes (isp_log (write_bytes ?bs s)) = eeprom_writes (isp_log s)"
    using flash_run_no_eeprom [OF st, of ?bs] lb dec by simp
  note e = eeprom_writes_calls_since [OF c this]
  have "bytes_transferred s (write_bytes ?bs s) = unat len"
    using write_bytes_continuous(2) [of s ?bs] lb by simp
  with r e show ?thesis by blast
qed

lemma flash_writes_append: "flash_writes (xs @ ys) = flash_writes xs @ flash_writes ys"
  by (induction xs rule: flash_writes.induct) simp_all

lemma write_iter_flash_writes:
  "prog_state t = PROG_STATE_WRITEFLASH \<Longrightarrow>
     flash_writes (isp_log (snd (write_iter b (r, t)))) = flash_writes (isp_log t)
       @ [IspWriteFlash (prog_address t) b (if prog_pagesize t = 0 then 1 else 0)]"
  by (simp add: write_iter_log write_store_log flash_writes_append)

lemma wrapped_run:
  fixes s :: "'a::len word session"
  assumes z: "prog_nbytes s = 0"
  shows "length bs < 65536 \<Longrightarrow>
     prog_state (write_bytes bs s) = prog_state s \<and> fst (fold write_iter bs (r, s)) = r"
proof (induction bs rule: rev_induct)
  case Nil
  show ?case by (simp add: write_bytes_Nil)
next
  case (snoc b bs)
  then have ih: "prog_state (write_bytes bs s) = prog_state s"
    "fst (fold write_iter bs (r, s)) = r" by simp_all
  have "(of_nat (Suc (length bs)) :: uint) \<noteq> 0"
    using snoc.prems by (intro of_nat_uint_nonzero) simp_all
  moreover have e2: "- (of_nat (length bs) :: uint) - 1 = - of_nat (Suc (length bs))"
    by simp
  ultimately have nz: "- (of_nat (length bs) :: uint) - 1 \<noteq> 0"
    by (simp only: e2 neg_equal_0_iff_equal not_False_eq_True)
  then have n1: "- (of_nat (length bs) :: uint) \<noteq> 1" by auto
  have nb: "prog_nbytes (write_bytes bs s) = - of_nat (length bs)"
    by (simp add: write_bytes_fields z)
  have "prog_state (write_bytes (bs @ [b]) s) = prog_state s"
    using n1 by (simp add: write_bytes_snoc write_iter_state nb ih(1))
  moreover have "fst (fold write_iter (bs @ [b]) (r, s)) = r"
    unfolding fold_write_iter_snoc ih(2) using nz by (simp add: write_iter_ret nb)
  ultimately show ?case by simp
qed

lemma wrapped_flash_run:
  fixes s :: "'a::len word session"
  assumes st: "prog_state s = PROG_STATE_WRITEFLASH" and z: "prog_nbytes s = 0"
  shows "length bs < 65536 \<Longrightarrow>
     flash_writes (isp_log (write_bytes bs s)) = flash_writes (isp_log s)
       @ map (\<lambda>i. IspWriteFlash (prog_address s + of_nat i) (bs ! i)
                     (if prog_pagesize s = 0 then 1 else 0)) [0..<length bs]
     \<and> eeprom_writes (isp_log (write_bytes bs s)) = eeprom_writes (isp_log s)"
proof (induction bs rule: rev_induct)
  case Nil
  show ?case by (simp add: write_bytes_Nil)
next
  case (snoc b bs)
  then have l: "length bs < 65536" by simp
  have ih: "flash_writes (isp_log (write_bytes bs s)) = flash_writes (isp_log s)
       @ map (\<lambda>i. IspWriteFlash (prog_address s + of_nat i) (bs ! i)
                     (if prog_pagesize s = 0 then 1 else 0)) [0..<length bs]"
    "eeprom_writes (isp_log (write_bytes bs s)) = eeprom_writes (isp_log s)"
    using snoc.IH [OF l] by simp_all
  have t: "prog_state (write_bytes bs s) = PROG_STATE_WRITEFLASH"
    using wrapped_run [OF z l, of 0] st by simp
  have m: "map (\<lambda>i. IspWriteFlash (prog_address s + of_nat i) ((bs @ [b]) ! i)
                     (if prog_pagesize s = 0 then 1 else 0)) [0..<length bs]
      = map (\<lambda>i. IspWriteFlash (prog_address s + of_nat i) (bs ! i)
                     (if prog_pagesize s = 0 then 1 else 0)) [0..<length bs]"
    by (rule map_cong) (simp_all add: nth_append)
  have "flash_writes (isp_log (write_bytes (bs @ [b]) s)) = flash_writes (isp_log s)
       @ map (\<lambda>i. IspWriteFlash (prog_address s + of_nat i) ((bs @ [b]) ! i)
                     (if prog_pagesize s = 0 then 1 else 0)) [0..<length (bs @ [b])]"
    unfolding write_bytes_snoc write_iter_flash_writes [OF t] ih(1)
    by (simp add: m write_bytes_fields)
  moreover have "eeprom_writes (isp_log (write_bytes (bs @ [b]) s)) = eeprom_writes (isp_log s)"
    unfolding write_bytes_snoc write_iter_flash_no_eeprom [OF t] ih(2) ..
  ultimately show ?case by simp
qed

lemma flash_writes_calls_since:
  assumes "address_continuous s s'" "flash_writes (isp_log s') = flash_writes (isp_log s) @ ws"
  shows "flash_writes (calls_since s s') = ws"
proof -
  have "flash_writes (isp_log s') = flash_writes (isp_log s) @ flash_writes (calls_since s s')"
    using address_continuousD(1) [OF assms(1)] flash_writes_append by metis
  with assms(2) show ?thesis by simp
qed

lemma unat_uint_neg_uchar:
  assumes "0 < unat (l :: uchar)"
  shows "unat (- ucast l :: uint) = 65536 - unat l"
  using unat_uint_sub_wrap [of 0 l] assms by simp

lemma writer_wrapped:
  fixes s :: "'a::len word session"
  assumes st: "prog_state s = PROG_STATE_WRITEFLASH"
      and buf: "unat len \<le> length data"
      and z: "prog_nbytes s = 0"
      and pos: "0 < unat len"
  shows "\<exists>s'. usbFunctionWrite data len s = Some (0, s')
     \<and> prog_state s' = PROG_STATE_WRITEFLASH
     \<and> bytes_transferred s s' = unat len
     \<and> flash_writes (calls_since s s')
          = map (\<lambda>i. IspWriteFlash (prog_address s + of_nat i) (data ! i)
                        (if prog_pagesize s = 0 then 1 else 0)) [0..<unat len]
     \<and> eeprom_writes (calls_since s s') = []
     \<and> prog_nbytes s' = - ucast len
     \<and> unat (prog_nbytes s') = 65536 - unat len"
proof -
  let ?bs = "take (unat len) data"
  let ?s' = "write_bytes ?bs s"
  have lb: "length ?bs = unat len" using buf by simp
  have "unat len < 256" by (rule unat_uchar_less)
  then have l: "length ?bs < 65536" using lb by simp
  note run = wrapped_run [OF z l, of 0]
  note fl = wrapped_flash_run [OF st z l]
  have "snd (fold write_iter ?bs (0, s)) = ?s'" by (simp add: write_bytes_def)
  with run have pair: "fold write_iter ?bs (0, s) = (0, ?s')" by (simp add: prod_eq_iff)
  have served: "usbFunctionWrite data len s = Some (0, ?s')"
    using usbFunctionWrite_served [of s len data] st buf pair by simp
  have c: "address_continuous s ?s'" by (rule write_bytes_continuous)
  have m: "map (\<lambda>i. IspWriteFlash (prog_address s + of_nat i) (?bs ! i)
                        (if prog_pagesize s = 0 then 1 else 0)) [0..<length ?bs]
      = map (\<lambda>i. IspWriteFlash (prog_address s + of_nat i) (data ! i)
                        (if prog_pagesize s = 0 then 1 else 0)) [0..<unat len]"
    unfolding lb by (rule map_cong) simp_all
  have fw: "flash_writes (calls_since s ?s')
          = map (\<lambda>i. IspWriteFlash (prog_address s + of_nat i) (data ! i)
                        (if prog_pagesize s = 0 then 1 else 0)) [0..<unat len]"
    using flash_writes_calls_since [OF c] fl m by simp
  have ee: "eeprom_writes (calls_since s ?s') = []"
    using eeprom_writes_calls_since [OF c] fl by simp
  have bt: "bytes_transferred s ?s' = unat len"
    using write_bytes_continuous(2) [of s ?bs] lb by simp
  have "(of_nat (unat len) :: uint) = ucast len" by simp
  then have nb: "prog_nbytes ?s' = - ucast len"
    unfolding write_bytes_fields lb z by simp
  have un: "unat (prog_nbytes ?s') = 65536 - unat len"
    unfolding nb using pos by (rule unat_uint_neg_uchar)
  have ps: "prog_state ?s' = PROG_STATE_WRITEFLASH" using run st by simp
  from served ps bt fw ee nb un show ?thesis by blast
qed

lemma write_armed_zero_eq:
  "write_armed_zero = power_up\<lparr>prog_state := PROG_STATE_WRITEFLASH,
                                usbMsgPtr := Msg_replyBuffer\<rparr>"
proof -
  have "bRequest (vendor_cmd USBASP_FUNC_WRITEFLASH 0 0 0 0 0 0) = USBASP_FUNC_WRITEFLASH"
    by (simp add: vendor_cmd_def)
  note a = arm_writeflash [OF vendor_not_hid this, of erased_target power_up]
  show ?thesis unfolding write_armed_zero_def a
    by (simp add: vendor_cmd_def power_up_def legacy_address_def nbytes_field_def
        int_of_bytes_def PROG_BLOCKFLAG_FIRST_def)
qed

section \<open>More bytes than declared\<close>

text \<open>
  C9, as the claim states it, fails when the declared count is 0. After a
  WriteProgramMemory command with byte count 0 (and page size 0), a call of
  \<open>usbFunctionWrite\<close> with one byte has a length that exceeds \<open>prog_nbytes\<close>; the byte
  is written to the flash, \<open>prog_nbytes\<close> wraps to 0xFFFF without passing 0, the state
  stays that of a flash write and the call returns 0, not 1.
\<close>

theorem C9_zero_count_overrun:
  "prog_state write_armed_zero = PROG_STATE_WRITEFLASH
   \<and> prog_nbytes write_armed_zero = 0
   \<and> unat (prog_nbytes write_armed_zero) < unat (1 :: uchar)
   \<and> usbFunctionWrite [0x55] 1 write_armed_zero
       = Some (0, write_armed_zero\<lparr>prog_address := 1, prog_nbytes := 0xFFFF,
                                    isp_log := [IspWriteFlash 0 0x55 1]\<rparr>)
   \<and> prog_state (write_armed_zero\<lparr>prog_address := 1, prog_nbytes := 0xFFFF,
                                    isp_log := [IspWriteFlash 0 0x55 1]\<rparr>)
       = PROG_STATE_WRITEFLASH"
proof -
  have a: "prog_state write_armed_zero = PROG_STATE_WRITEFLASH"
    "prog_nbytes write_armed_zero = 0" "prog_pagesize write_armed_zero = 0"
    "prog_address write_armed_zero = 0" "isp_log write_armed_zero = []"
    by (simp_all add: write_armed_zero_eq power_up_def)
  have "write_iter 0x55 (0, write_armed_zero)
     = (0, write_armed_zero\<lparr>prog_address := 1, prog_nbytes := 0xFFFF,
                              isp_log := [IspWriteFlash 0 0x55 1]\<rparr>)"
    by (simp add: write_iter_def write_count_def write_store_def isp_call_def Let_def a)
  then have "usbFunctionWrite [0x55] 1 write_armed_zero
       = Some (0, write_armed_zero\<lparr>prog_address := 1, prog_nbytes := 0xFFFF,
                                    isp_log := [IspWriteFlash 0 0x55 1]\<rparr>)"
    by (simp add: usbFunctionWrite_def a)
  with a show ?thesis by simp
qed

text \<open>
  C9, amended. A call of \<open>usbFunctionWrite\<close> in the state of a flash write whose length
  does not exceed \<open>prog_nbytes\<close> transfers its bytes with no EEPROM write and leaves
  \<open>prog_nbytes\<close> smaller by its length, without wrapping. If \<open>prog_nbytes\<close> is at
  least 1 and the length exceeds it, the loop goes on: after the declared bytes the state
  is idle, every further byte of the chunk is written to the EEPROM at its address,
  \<open>prog_nbytes\<close> wraps around modulo \<open>2 ^ 16\<close>, the state at the end is idle and
  the call returns 1. If \<open>prog_nbytes\<close> is 0 and the length is at least 1, the count
  wraps on the first byte without passing 0: every byte of the chunk is written to the
  flash at its address and none to the EEPROM, the state stays that of a flash write,
  \<open>prog_nbytes\<close> ends at \<open>2 ^ 16\<close> less the length and the call returns 0. This
  holds for both revisions.
\<close>

theorem C9_writer_overrun:
  fixes s :: "'a::len word session"
  shows "(prog_state s = PROG_STATE_WRITEFLASH \<and> unat len \<le> length data
            \<and> unat len \<le> unat (prog_nbytes s)
          \<longrightarrow> (\<exists>ret s'. usbFunctionWrite data len s = Some (ret, s')
                \<and> bytes_transferred s s' = unat len
                \<and> eeprom_writes (calls_since s s') = []
                \<and> unat (prog_nbytes s') = unat (prog_nbytes s) - unat len))
     \<and> (prog_state s = PROG_STATE_WRITEFLASH \<and> unat len \<le> length data
            \<and> 0 < unat (prog_nbytes s) \<and> unat (prog_nbytes s) < unat len
          \<longrightarrow> (\<exists>s'. usbFunctionWrite data len s = Some (1, s')
                \<and> prog_state (write_bytes (take (unat (prog_nbytes s)) data) s) = PROG_STATE_IDLE
                \<and> prog_state s' = PROG_STATE_IDLE
                \<and> bytes_transferred s s' = unat len
                \<and> eeprom_writes (calls_since s s')
                     = map (\<lambda>i. IspWriteEEPROM (prog_address s + of_nat i) (data ! i))
                           [unat (prog_nbytes s)..<unat len]
                \<and> prog_nbytes s' = prog_nbytes s - ucast len
                \<and> unat (prog_nbytes s') = 65536 + unat (prog_nbytes s) - unat len))
     \<and> (prog_state s = PROG_STATE_WRITEFLASH \<and> unat len \<le> length data
            \<and> prog_nbytes s = 0 \<and> 0 < unat len
          \<longrightarrow> (\<exists>s'. usbFunctionWrite data len s = Some (0, s')
                \<and> prog_state s' = PROG_STATE_WRITEFLASH
                \<and> bytes_transferred s s' = unat len
                \<and> flash_writes (calls_since s s')
                     = map (\<lambda>i. IspWriteFlash (prog_address s + of_nat i) (data ! i)
                                   (if prog_pagesize s = 0 then 1 else 0)) [0..<unat len]
                \<and> eeprom_writes (calls_since s s') = []
                \<and> prog_nbytes s' = - ucast len
                \<and> unat (prog_nbytes s') = 65536 - unat len))"
proof (intro conjI impI)
  show "\<exists>ret s'. usbFunctionWrite data len s = Some (ret, s')
                \<and> bytes_transferred s s' = unat len
                \<and> eeprom_writes (calls_since s s') = []
                \<and> unat (prog_nbytes s') = unat (prog_nbytes s) - unat len"
    if "prog_state s = PROG_STATE_WRITEFLASH \<and> unat len \<le> length data
            \<and> unat len \<le> unat (prog_nbytes s)"
  proof -
    from that have h: "prog_state s = PROG_STATE_WRITEFLASH" "unat len \<le> length data"
      "unat len \<le> unat (prog_nbytes s)" by blast+
    show ?thesis using h by (rule writer_confined)
  qed
  show "\<exists>s'. usbFunctionWrite data len s = Some (1, s')
                \<and> prog_state (write_bytes (take (unat (prog_nbytes s)) data) s) = PROG_STATE_IDLE
                \<and> prog_state s' = PROG_STATE_IDLE
                \<and> bytes_transferred s s' = unat len
                \<and> eeprom_writes (calls_since s s')
                     = map (\<lambda>i. IspWriteEEPROM (prog_address s + of_nat i) (data ! i))
                           [unat (prog_nbytes s)..<unat len]
                \<and> prog_nbytes s' = prog_nbytes s - ucast len
                \<and> unat (prog_nbytes s') = 65536 + unat (prog_nbytes s) - unat len"
    if "prog_state s = PROG_STATE_WRITEFLASH \<and> unat len \<le> length data
            \<and> 0 < unat (prog_nbytes s) \<and> unat (prog_nbytes s) < unat len"
  proof -
    from that have h: "prog_state s = PROG_STATE_WRITEFLASH" "unat len \<le> length data"
      "0 < unat (prog_nbytes s)" "unat (prog_nbytes s) < unat len" by blast+
    show ?thesis using h by (rule writer_overrun)
  qed
  show "\<exists>s'. usbFunctionWrite data len s = Some (0, s')
                \<and> prog_state s' = PROG_STATE_WRITEFLASH
                \<and> bytes_transferred s s' = unat len
                \<and> flash_writes (calls_since s s')
                     = map (\<lambda>i. IspWriteFlash (prog_address s + of_nat i) (data ! i)
                                   (if prog_pagesize s = 0 then 1 else 0)) [0..<unat len]
                \<and> eeprom_writes (calls_since s s') = []
                \<and> prog_nbytes s' = - ucast len
                \<and> unat (prog_nbytes s') = 65536 - unat len"
    if "prog_state s = PROG_STATE_WRITEFLASH \<and> unat len \<le> length data
            \<and> prog_nbytes s = 0 \<and> 0 < unat len"
  proof -
    from that have h: "prog_state s = PROG_STATE_WRITEFLASH" "unat len \<le> length data"
      "prog_nbytes s = 0" "0 < unat len" by blast+
    show ?thesis using h by (rule writer_wrapped)
  qed
qed

theorem C9_writer_overrun_witness:
  "prog_state write_armed = PROG_STATE_WRITEFLASH
   \<and> unat (5 :: uchar) \<le> length [1, 2, 3, 4, 5 :: uchar]
   \<and> 0 < unat (prog_nbytes write_armed)
   \<and> unat (prog_nbytes write_armed) < unat (5 :: uchar)
   \<and> (\<exists>s'. usbFunctionWrite [1, 2, 3, 4, 5] 5 write_armed = Some (1, s')
         \<and> prog_state s' = PROG_STATE_IDLE
         \<and> eeprom_writes (calls_since write_armed s') = [IspWriteEEPROM 3 4, IspWriteEEPROM 4 5]
         \<and> prog_nbytes s' = 0xFFFE)
   \<and> unat (2 :: uchar) \<le> length [1, 2 :: uchar]
   \<and> unat (2 :: uchar) \<le> unat (prog_nbytes write_armed)
   \<and> (\<exists>ret s'. usbFunctionWrite [1, 2] 2 write_armed = Some (ret, s')
         \<and> bytes_transferred write_armed s' = 2
         \<and> eeprom_writes (calls_since write_armed s') = []
         \<and> unat (prog_nbytes s') = 1)
   \<and> prog_state write_armed_zero = PROG_STATE_WRITEFLASH
   \<and> prog_nbytes write_armed_zero = 0
   \<and> 0 < unat (2 :: uchar)
   \<and> (\<exists>s'. usbFunctionWrite [0x11, 0x22] 2 write_armed_zero = Some (0, s')
         \<and> prog_state s' = PROG_STATE_WRITEFLASH
         \<and> flash_writes (calls_since write_armed_zero s')
              = [IspWriteFlash 0 0x11 1, IspWriteFlash 1 0x22 1]
         \<and> eeprom_writes (calls_since write_armed_zero s') = []
         \<and> prog_nbytes s' = 0xFFFE)"
proof -
  have w: "prog_state write_armed = PROG_STATE_WRITEFLASH"
    "unat (5 :: uchar) \<le> length [1, 2, 3, 4, 5 :: uchar]"
    "0 < unat (prog_nbytes write_armed)"
    "unat (prog_nbytes write_armed) < unat (5 :: uchar)"
    and v: "prog_nbytes write_armed = 3" "prog_address write_armed = 0"
    and c: "unat (2 :: uchar) \<le> length [1, 2 :: uchar]"
      "unat (2 :: uchar) \<le> unat (prog_nbytes write_armed)"
    by (simp_all add: write_armed_eq power_up_def)
  have z: "prog_state write_armed_zero = PROG_STATE_WRITEFLASH"
    "prog_nbytes write_armed_zero = 0" "0 < unat (2 :: uchar)"
    "unat (2 :: uchar) \<le> length [0x11, 0x22 :: uchar]"
    and vz: "prog_address write_armed_zero = 0" "prog_pagesize write_armed_zero = 0"
    by (simp_all add: write_armed_zero_eq power_up_def)
  from C9_writer_overrun [of write_armed 5 "[1, 2, 3, 4, 5]"] w
  obtain s' where s': "usbFunctionWrite [1, 2, 3, 4, 5] 5 write_armed = Some (1, s')"
    "prog_state s' = PROG_STATE_IDLE"
    "eeprom_writes (calls_since write_armed s')
       = map (\<lambda>i. IspWriteEEPROM (prog_address write_armed + of_nat i) ([1, 2, 3, 4, 5] ! i))
             [unat (prog_nbytes write_armed)..<unat (5 :: uchar)]"
    "prog_nbytes s' = prog_nbytes write_armed - ucast (5 :: uchar)"
    by blast
  have u: "[unat (3 :: uint)..<unat (5 :: uchar)] = [3, 4]"
    by (simp add: upt_rec)
  have "eeprom_writes (calls_since write_armed s') = [IspWriteEEPROM 3 4, IspWriteEEPROM 4 5]"
    unfolding s'(3) v u by simp
  moreover have "prog_nbytes s' = 0xFFFE"
    unfolding s'(4) v by simp
  ultimately have over: "\<exists>s'. usbFunctionWrite [1, 2, 3, 4, 5] 5 write_armed = Some (1, s')
         \<and> prog_state s' = PROG_STATE_IDLE
         \<and> eeprom_writes (calls_since write_armed s') = [IspWriteEEPROM 3 4, IspWriteEEPROM 4 5]
         \<and> prog_nbytes s' = 0xFFFE"
    using s'(1,2) by blast
  from C9_writer_overrun [of write_armed 2 "[1, 2]"] w(1) c
  obtain ret t where t: "usbFunctionWrite [1, 2] 2 write_armed = Some (ret, t)"
    "bytes_transferred write_armed t = unat (2 :: uchar)"
    "eeprom_writes (calls_since write_armed t) = []"
    "unat (prog_nbytes t) = unat (prog_nbytes write_armed) - unat (2 :: uchar)"
    by blast
  have "bytes_transferred write_armed t = 2" "unat (prog_nbytes t) = 1"
    using t(2,4) v by simp_all
  with t(1,3) have conf: "\<exists>ret s'. usbFunctionWrite [1, 2] 2 write_armed = Some (ret, s')
         \<and> bytes_transferred write_armed s' = 2
         \<and> eeprom_writes (calls_since write_armed s') = []
         \<and> unat (prog_nbytes s') = 1"
    by blast
  from C9_writer_overrun [of write_armed_zero 2 "[0x11, 0x22]"] z
  obtain q where q: "usbFunctionWrite [0x11, 0x22] 2 write_armed_zero = Some (0, q)"
    "prog_state q = PROG_STATE_WRITEFLASH"
    "flash_writes (calls_since write_armed_zero q)
       = map (\<lambda>i. IspWriteFlash (prog_address write_armed_zero + of_nat i) ([0x11, 0x22] ! i)
                     (if prog_pagesize write_armed_zero = 0 then 1 else 0))
             [0..<unat (2 :: uchar)]"
    "eeprom_writes (calls_since write_armed_zero q) = []"
    "prog_nbytes q = - ucast (2 :: uchar)"
    by blast
  have u2: "[0..<unat (2 :: uchar)] = [0, 1]"
    by (simp add: upt_rec)
  have "flash_writes (calls_since write_armed_zero q)
              = [IspWriteFlash 0 0x11 1, IspWriteFlash 1 0x22 1]"
    unfolding q(3) vz u2 by simp
  moreover have "prog_nbytes q = 0xFFFE"
    unfolding q(5) by simp
  ultimately have wrap: "\<exists>s'. usbFunctionWrite [0x11, 0x22] 2 write_armed_zero = Some (0, s')
         \<and> prog_state s' = PROG_STATE_WRITEFLASH
         \<and> flash_writes (calls_since write_armed_zero s')
              = [IspWriteFlash 0 0x11 1, IspWriteFlash 1 0x22 1]
         \<and> eeprom_writes (calls_since write_armed_zero s') = []
         \<and> prog_nbytes s' = 0xFFFE"
    using q(1,2,4) by blast
  from w over c conf z(1,2,3) wrap show ?thesis by blast
qed

lemma unat_ucast_uchar_32: "unat (ucast (x :: uchar) :: 32 word) = unat x"
  using unat_uchar_less [of x] by (simp add: unsigned_ucast_eq take_bit_eq_mod)

lemma long_address_sum:
  "long_address d = ucast (data2 d) + (push_bit 8 (ucast (data3 d))
       + (push_bit 16 (ucast (data4 d)) + push_bit 24 (ucast (data5 d))))"
proof -
  have 1: "push_bit 16 (ucast (data4 d)) + push_bit 24 (ucast (data5 d))
      = (push_bit 16 (ucast (data4 d)) OR push_bit 24 (ucast (data5 d)) :: 32 word)"
    by (rule disjunctive_add) (auto simp add: bit_simps dest: bit_imp_le_length)
  have 2: "push_bit 8 (ucast (data3 d))
        + (push_bit 16 (ucast (data4 d)) OR push_bit 24 (ucast (data5 d)))
      = (push_bit 8 (ucast (data3 d))
        OR (push_bit 16 (ucast (data4 d)) OR push_bit 24 (ucast (data5 d))) :: 32 word)"
    by (rule disjunctive_add) (auto simp add: bit_simps dest: bit_imp_le_length)
  have 3: "ucast (data2 d) + (push_bit 8 (ucast (data3 d))
        OR (push_bit 16 (ucast (data4 d)) OR push_bit 24 (ucast (data5 d))))
      = (ucast (data2 d) OR (push_bit 8 (ucast (data3 d))
        OR (push_bit 16 (ucast (data4 d)) OR push_bit 24 (ucast (data5 d)))) :: 32 word)"
    by (rule disjunctive_add) (auto simp add: bit_simps dest: bit_imp_le_length)
  show ?thesis
    unfolding long_address_def 1 2 3 by (simp only: or.assoc)
qed

lemma unat_long_address:
  "unat (long_address d) = unat (data2 d) + 256 * unat (data3 d)
      + 65536 * unat (data4 d) + 16777216 * unat (data5 d)"
proof -
  have b: "unat (data2 d) < 256" "unat (data3 d) < 256" "unat (data4 d) < 256"
    "unat (data5 d) < 256" by (rule unat_uchar_less)+
  have "long_address d = of_nat (unat (data2 d)) + (of_nat (unat (data3 d)) * 256
       + (of_nat (unat (data4 d)) * 65536 + of_nat (unat (data5 d)) * 16777216))"
    unfolding long_address_sum by (simp add: push_bit_eq_mult)
  also have "\<dots> = of_nat (unat (data2 d) + 256 * unat (data3 d)
      + 65536 * unat (data4 d) + 16777216 * unat (data5 d))"
    by simp
  finally have "unat (long_address d) = (unat (data2 d) + 256 * unat (data3 d)
      + 65536 * unat (data4 d) + 16777216 * unat (data5 d)) mod 2 ^ LENGTH(32)"
    by (simp only: unat_of_nat)
  moreover have "unat (data2 d) + 256 * unat (data3 d)
      + 65536 * unat (data4 d) + 16777216 * unat (data5 d) < 2 ^ LENGTH(32)"
    using b by simp
  ultimately show ?thesis by simp
qed

lemma hid_class_request_keeps:
  assumes "hid_class_request k p d s = Some r"
  shows "prog_address_newmode (snd r) = prog_address_newmode s"
    and "prog_address (snd r) = prog_address s"
  using assms by (auto simp: hid_class_request_def buildReport_def split: if_splits)

lemma usbasp_request_newmode:
  "prog_address_newmode (snd (usbasp_request k p d s)) =
     (if bRequest d = USBASP_FUNC_CONNECT then 0
      else if bRequest d = USBASP_FUNC_SETLONGADDRESS then 1
      else prog_address_newmode s)"
  by (simp add: usbasp_request_def Let_def isp_call_def transmit_into_def set_address_def
      USBASP_FUNC_CONNECT_def USBASP_FUNC_DISCONNECT_def USBASP_FUNC_TRANSMIT_def
      USBASP_FUNC_READFLASH_def USBASP_FUNC_READEEPROM_def USBASP_FUNC_ENABLEPROG_def
      USBASP_FUNC_WRITEFLASH_def USBASP_FUNC_WRITEEEPROM_def USBASP_FUNC_SETLONGADDRESS_def
      USBASP_FUNC_SETISPSCK_def)

lemma usbFunctionSetup_newmode:
  "prog_address_newmode (snd (usbFunctionSetup k p d s)) =
     (if hid_class_request k p d s = None \<and> bRequest d = USBASP_FUNC_CONNECT then 0
      else if hid_class_request k p d s = None \<and> bRequest d = USBASP_FUNC_SETLONGADDRESS then 1
      else prog_address_newmode s)"
proof (cases "hid_class_request k p d s")
  case None
  then show ?thesis
    by (simp add: usbFunctionSetup_def Let_def usbasp_request_newmode)
next
  case (Some r)
  then show ?thesis
    using hid_class_request_keeps(1) [OF Some] by (simp add: usbFunctionSetup_def)
qed

lemma setlongaddress:
  assumes "hid_class_request k p d s = None" "bRequest d = USBASP_FUNC_SETLONGADDRESS"
  shows "usbFunctionSetup k p d s
     = (0, s\<lparr>prog_address_newmode := 1, prog_address := long_address d,
              usbMsgPtr := Msg_replyBuffer\<rparr>)"
  using assms
  by (simp add: usbFunctionSetup_def usbasp_request_def Let_def
      USBASP_FUNC_CONNECT_def USBASP_FUNC_DISCONNECT_def USBASP_FUNC_TRANSMIT_def
      USBASP_FUNC_READFLASH_def USBASP_FUNC_READEEPROM_def USBASP_FUNC_ENABLEPROG_def
      USBASP_FUNC_WRITEFLASH_def USBASP_FUNC_WRITEEEPROM_def USBASP_FUNC_SETLONGADDRESS_def)

lemma connect:
  assumes "hid_class_request k p d s = None" "bRequest d = USBASP_FUNC_CONNECT"
  shows "usbFunctionSetup k p d s
     = (0, s\<lparr>prog_address_newmode := 0, usbMsgPtr := Msg_replyBuffer,
              isp_log := isp_log s @
                [IspSetSCKOption (if PINC p (isp_log s) AND push_bit (PC2 k) 1 = 0
                                  then USBASP_ISP_SCK_8 k else prog_sck s),
                 LedRedOn, IspConnect]\<rparr>)"
  using assms
  by (simp add: usbFunctionSetup_def usbasp_request_def Let_def isp_call_def)

lemma arm_readeeprom:
  assumes "hid_class_request k p d s = None" "bRequest d = USBASP_FUNC_READEEPROM"
  shows "usbFunctionSetup k p d s =
    (0xff, s\<lparr>prog_state := PROG_STATE_READEEPROM,
             prog_address := (if prog_address_newmode s = 0 then legacy_address d else prog_address s),
             prog_nbytes := nbytes_field d,
             usbMsgPtr := Msg_replyBuffer\<rparr>)"
  using assms
  by (simp add: usbFunctionSetup_def usbasp_request_def set_address_def Let_def
      USBASP_FUNC_CONNECT_def USBASP_FUNC_DISCONNECT_def USBASP_FUNC_TRANSMIT_def
      USBASP_FUNC_READFLASH_def USBASP_FUNC_READEEPROM_def)

lemma arm_writeeeprom:
  assumes "hid_class_request k p d s = None" "bRequest d = USBASP_FUNC_WRITEEEPROM"
  shows "usbFunctionSetup k p d s =
    (0xff, s\<lparr>prog_state := PROG_STATE_WRITEEEPROM,
             prog_address := (if prog_address_newmode s = 0 then legacy_address d else prog_address s),
             prog_nbytes := nbytes_field d, prog_pagesize := 0, prog_blockflags := 0,
             usbMsgPtr := Msg_replyBuffer\<rparr>)"
  using assms
  by (simp add: usbFunctionSetup_def usbasp_request_def set_address_def Let_def
      USBASP_FUNC_CONNECT_def USBASP_FUNC_DISCONNECT_def USBASP_FUNC_TRANSMIT_def
      USBASP_FUNC_READFLASH_def USBASP_FUNC_READEEPROM_def USBASP_FUNC_ENABLEPROG_def
      USBASP_FUNC_WRITEFLASH_def USBASP_FUNC_WRITEEEPROM_def)

lemma arming_address:
  assumes h: "hid_class_request k p d s = None"
      and "bRequest d \<in> {USBASP_FUNC_READFLASH, USBASP_FUNC_READEEPROM,
                           USBASP_FUNC_WRITEFLASH, USBASP_FUNC_WRITEEEPROM}"
  shows "prog_address (snd (usbFunctionSetup k p d s))
           = (if prog_address_newmode s = 0 then legacy_address d else prog_address s)"
    and "prog_address_newmode (snd (usbFunctionSetup k p d s)) = prog_address_newmode s"
    and "isp_log (snd (usbFunctionSetup k p d s)) = isp_log s"
    and "prog_nbytes (snd (usbFunctionSetup k p d s)) = nbytes_field d"
proof -
  from assms(2) consider
    (rf) "bRequest d = USBASP_FUNC_READFLASH" | (re) "bRequest d = USBASP_FUNC_READEEPROM" |
    (wf) "bRequest d = USBASP_FUNC_WRITEFLASH" | (we) "bRequest d = USBASP_FUNC_WRITEEEPROM"
    by blast
  then have "prog_address (snd (usbFunctionSetup k p d s))
           = (if prog_address_newmode s = 0 then legacy_address d else prog_address s)
    \<and> prog_address_newmode (snd (usbFunctionSetup k p d s)) = prog_address_newmode s
    \<and> isp_log (snd (usbFunctionSetup k p d s)) = isp_log s
    \<and> prog_nbytes (snd (usbFunctionSetup k p d s)) = nbytes_field d"
  proof cases
    case rf
    show ?thesis unfolding arm_readflash [OF h rf] by simp
  next
    case re
    show ?thesis unfolding arm_readeeprom [OF h re] by simp
  next
    case wf
    show ?thesis unfolding arm_writeflash [OF h wf] by simp
  next
    case we
    show ?thesis unfolding arm_writeeeprom [OF h we] by simp
  qed
  then show "prog_address (snd (usbFunctionSetup k p d s))
           = (if prog_address_newmode s = 0 then legacy_address d else prog_address s)"
    and "prog_address_newmode (snd (usbFunctionSetup k p d s)) = prog_address_newmode s"
    and "isp_log (snd (usbFunctionSetup k p d s)) = isp_log s"
    and "prog_nbytes (snd (usbFunctionSetup k p d s)) = nbytes_field d"
    by blast+
qed

lemma usbFunctionRead_newmode:
  "prog_address_newmode (snd (snd (usbFunctionRead p len s))) = prog_address_newmode s"
  by (simp add: usbFunctionRead_def Let_def read_loop_fields)

lemma usbFunctionWrite_newmode:
  assumes "usbFunctionWrite data len s = Some (r, s')"
  shows "prog_address_newmode s' = prog_address_newmode s"
  using usbFunctionWrite_cases [OF assms] by (auto simp: write_bytes_fields)

lemma usb_call_newmode:
  assumes "usb_call k p c s = Some s'"
  shows "prog_address_newmode s' =
     (case c of
        Setup d \<Rightarrow>
          (if hid_class_request k p d s = None \<and> bRequest d = USBASP_FUNC_CONNECT then 0
           else if hid_class_request k p d s = None \<and> bRequest d = USBASP_FUNC_SETLONGADDRESS
           then 1 else prog_address_newmode s)
      | _ \<Rightarrow> prog_address_newmode s)"
proof (cases c)
  case (Setup d)
  with assms show ?thesis by (auto simp: usbFunctionSetup_newmode)
next
  case (Read len)
  with assms show ?thesis by (auto simp: usbFunctionRead_newmode)
next
  case (Write data len)
  with assms obtain r where "usbFunctionWrite data len s = Some (r, s')" by auto
  from usbFunctionWrite_newmode [OF this] Write show ?thesis by simp
qed

lemma usb_calls_extended_persists:
  assumes "\<forall>d. Setup d \<in> set cs \<longrightarrow> bRequest d \<noteq> USBASP_FUNC_CONNECT"
      and "usb_calls k p cs s = Some s'"
      and "prog_address_newmode s = 1"
  shows "prog_address_newmode s' = 1"
  using assms
proof (induction cs arbitrary: s)
  case Nil
  then show ?case by simp
next
  case (Cons c cs)
  from Cons.prems(2) obtain s1 where s1: "usb_call k p c s = Some s1"
    and rest: "usb_calls k p cs s1 = Some s'"
    by (auto split: option.splits)
  have "prog_address_newmode s1 = 1"
    using usb_call_newmode [OF s1] Cons.prems(1,3) by (cases c) (auto split: if_splits)
  with Cons.IH [OF _ rest] Cons.prems(1) show ?case by simp
qed

lemma usb_calls_legacy_persists:
  assumes "\<forall>d. Setup d \<in> set cs \<longrightarrow> bRequest d \<noteq> USBASP_FUNC_SETLONGADDRESS"
      and "usb_calls k p cs s = Some s'"
      and "prog_address_newmode s = 0"
  shows "prog_address_newmode s' = 0"
  using assms
proof (induction cs arbitrary: s)
  case Nil
  then show ?case by simp
next
  case (Cons c cs)
  from Cons.prems(2) obtain s1 where s1: "usb_call k p c s = Some s1"
    and rest: "usb_calls k p cs s1 = Some s'"
    by (auto split: option.splits)
  have "prog_address_newmode s1 = 0"
    using usb_call_newmode [OF s1] Cons.prems(1,3) by (cases c) (auto split: if_splits)
  with Cons.IH [OF _ rest] Cons.prems(1) show ?case by simp
qed

section \<open>The request type and the legacy address in numbers\<close>

text \<open>With the constants of \<open>vusb\<close>, the keyboard class block can only take the
  requests numbered 1, 2 and 10: every other command reaches the programmer's
  commands whatever its byte 0 is.\<close>

lemma vusb_lets_through:
  "bRequest d \<notin> {1, 2, 10} \<Longrightarrow> hid_class_request vusb p d s = None"
  by (simp add: hid_class_request_def vusb_def)

text \<open>The value of \<open>legacy_address\<close>: bytes 2 and 3 as a 16-bit number, and
  \<open>0xFFFF0000\<close> more when bit 7 of byte 3 is set, since the \<open>int\<close> is negative
  then and its conversion to \<open>unsigned long\<close> extends the sign.\<close>

lemma unat_int_of_bytes: "unat (int_of_bytes hi lo) = 256 * unat hi + unat lo"
proof -
  have s: "push_bit 8 (ucast hi) + ucast lo = (push_bit 8 (ucast hi) OR ucast lo :: uint)"
    by (rule disjunctive_add) (auto simp add: bit_simps dest: bit_imp_le_length)
  have "int_of_bytes hi lo = of_nat (unat hi) * 256 + of_nat (unat lo)"
    unfolding int_of_bytes_def s [symmetric] by (simp add: push_bit_eq_mult)
  also have "\<dots> = of_nat (256 * unat hi + unat lo)" by simp
  finally have "unat (int_of_bytes hi lo) = (256 * unat hi + unat lo) mod 2 ^ LENGTH(16)"
    by (simp only: unat_of_nat)
  moreover have "256 * unat hi + unat lo < 2 ^ LENGTH(16)"
    using unat_uchar_less [of hi] unat_uchar_less [of lo] by simp
  ultimately show ?thesis by simp
qed

lemma unat_scast_uint_32:
  "unat (scast (w :: uint) :: 32 word)
     = (if unat w < 32768 then unat w else 4294901760 + unat w)"
proof -
  have uu: "uint w = int (unat w)" by simp
  have b: "uint w < 65536" using uint_bounded [of w] by simp
  have n: "0 \<le> uint w" by simp
  have d: "uint w div 32768 = (if uint w < 32768 then 0 else 1)"
    using b n by (simp split: if_splits) linarith
  have sw: "sint w = (if uint w < 32768 then uint w else uint w - 65536)"
    using b n
    by (simp add: sint_uint signed_take_bit_eq_take_bit_minus take_bit_eq_mod bit_iff_odd d)
  show ?thesis
  proof (cases "unat w < 32768")
    case True
    then have T: "uint w < 32768" unfolding uu by linarith
    then have "scast w = (ucast w :: 32 word)" by (simp add: scast_eq sw)
    moreover have "unat w < 2 ^ LENGTH(16)" by (rule unsigned_less)
    then have "unat (ucast w :: 32 word) = unat w"
      by (simp add: unsigned_ucast_eq take_bit_eq_mod)
    ultimately show ?thesis using True by simp
  next
    case False
    then have F: "\<not> uint w < 32768" unfolding uu by linarith
    have "uint (scast w :: 32 word) = sint w mod 2 ^ LENGTH(32)"
      by (simp only: scast_eq uint_word_of_int)
    also have "\<dots> = (uint w - 65536) mod 4294967296"
      using F by (simp add: sw)
    also have "\<dots> = (uint w - 65536 + 4294967296) mod 4294967296"
      by (simp only: mod_add_self2)
    also have "\<dots> = uint w - 65536 + 4294967296"
      using F b by (intro mod_pos_pos_trivial) simp_all
    finally have "uint (scast w :: 32 word) = int (4294901760 + unat w)"
      unfolding uu by simp
    then have "unat (scast w :: 32 word) = 4294901760 + unat w"
      by (simp only: unat_eq_nat_uint nat_int)
    with False show ?thesis by simp
  qed
qed

lemma legacy_address_value:
  "unat (legacy_address d)
     = (if data3 d < 0x80 then 256 * unat (data3 d) + unat (data2 d)
        else 4294901760 + 256 * unat (data3 d) + unat (data2 d))"
proof -
  have "(data3 d < 0x80) = (unat (data3 d) < 128)"
    by (simp add: word_less_nat_alt)
  moreover have "(256 * unat (data3 d) + unat (data2 d) < 32768) = (unat (data3 d) < 128)"
    using unat_uchar_less [of "data2 d"] by auto
  ultimately show ?thesis
    by (simp add: legacy_address_def unat_scast_uint_32 unat_int_of_bytes)
qed

section \<open>Extended addressing\<close>

text \<open>
  What holds of the extended mode for every session. A SetExtendedAddress command sets
  \<open>prog_address_newmode\<close> to 1 and \<open>prog_address\<close> to the value of bytes 2 to 5
  of the command, lowest byte first. After any calls of the three entry points among
  which no command has the number of Connect, the mode is still 1, and a
  ReadProgramMemory, ReadDataMemory, WriteProgramMemory or WriteDataMemory command then
  leaves \<open>prog_address\<close> as it finds it, whatever its bytes 2 and 3 are, and leaves the
  mode at 1; with no call in between, this is the address the SetExtendedAddress command
  gave. A Connect command sets the mode to 0; after any calls among which no command has
  the number of SetExtendedAddress the mode is still 0, and one of the four commands then
  sets \<open>prog_address\<close> from its bytes 2 and 3: to \<open>256 * data[3] + data[2]\<close> when
  \<open>data[3]\<close> is below \<open>0x80\<close>, and to \<open>0xFFFF0000\<close> more than that otherwise.
  Every command here is one the keyboard class block lets through
  (\<open>hid_class_request\<close> is \<open>None\<close>).
\<close>

lemma extended_address_mode:
  fixes s :: "32 word session"
  assumes long: "hid_class_request k p dL s = None" "bRequest dL = USBASP_FUNC_SETLONGADDRESS"
      and s1: "s1 = snd (usbFunctionSetup k p dL s)"
      and calls: "\<forall>d. Setup d \<in> set calls \<longrightarrow> bRequest d \<noteq> USBASP_FUNC_CONNECT"
                 "usb_calls k p calls s1 = Some s2"
      and armA: "hid_class_request k p dA s2 = None"
                "bRequest dA \<in> {USBASP_FUNC_READFLASH, USBASP_FUNC_READEEPROM,
                                  USBASP_FUNC_WRITEFLASH, USBASP_FUNC_WRITEEEPROM}"
      and s3: "s3 = snd (usbFunctionSetup k p dA s2)"
      and conn: "hid_class_request k p dC s3 = None" "bRequest dC = USBASP_FUNC_CONNECT"
      and s4: "s4 = snd (usbFunctionSetup k p dC s3)"
      and calls': "\<forall>d. Setup d \<in> set calls' \<longrightarrow> bRequest d \<noteq> USBASP_FUNC_SETLONGADDRESS"
                  "usb_calls k p calls' s4 = Some s5"
      and armB: "hid_class_request k p dB s5 = None"
                "bRequest dB \<in> {USBASP_FUNC_READFLASH, USBASP_FUNC_READEEPROM,
                                  USBASP_FUNC_WRITEFLASH, USBASP_FUNC_WRITEEEPROM}"
      and s6: "s6 = snd (usbFunctionSetup k p dB s5)"
  shows "prog_address_newmode s1 = 1
     \<and> unat (prog_address s1) = unat (data2 dL) + 256 * unat (data3 dL)
          + 65536 * unat (data4 dL) + 16777216 * unat (data5 dL)
     \<and> prog_address_newmode s2 = 1
     \<and> prog_address s3 = prog_address s2
     \<and> prog_address_newmode s3 = 1
     \<and> (calls = [] \<longrightarrow> prog_address s3 = prog_address s1)
     \<and> prog_address_newmode s4 = 0
     \<and> prog_address_newmode s5 = 0
     \<and> unat (prog_address s6)
          = (if data3 dB < 0x80 then 256 * unat (data3 dB) + unat (data2 dB)
             else 4294901760 + 256 * unat (data3 dB) + unat (data2 dB))"
proof -
  have m1: "prog_address_newmode s1 = 1" and a1: "prog_address s1 = long_address dL"
    unfolding s1 setlongaddress [OF long] by simp_all
  have m2: "prog_address_newmode s2 = 1"
    using calls m1 by (rule usb_calls_extended_persists)
  have a3: "prog_address s3 = prog_address s2" and m3: "prog_address_newmode s3 = 1"
    unfolding s3 using arming_address(1,2) [OF armA] m2 by simp_all
  have e: "prog_address s3 = prog_address s1" if "calls = []"
    using that calls(2) a3 by simp
  have m4: "prog_address_newmode s4 = 0"
    unfolding s4 connect [OF conn] by simp
  have m5: "prog_address_newmode s5 = 0"
    using calls' m4 by (rule usb_calls_legacy_persists)
  have a6: "prog_address s6 = legacy_address dB"
    unfolding s6 using arming_address(1) [OF armB] m5 by simp
  have n1: "unat (prog_address s1) = unat (data2 dL) + 256 * unat (data3 dL)
          + 65536 * unat (data4 dL) + 16777216 * unat (data5 dL)"
    unfolding a1 by (rule unat_long_address)
  have n6: "unat (prog_address s6)
          = (if data3 dB < 0x80 then 256 * unat (data3 dB) + unat (data2 dB)
             else 4294901760 + 256 * unat (data3 dB) + unat (data2 dB))"
    unfolding a6 by (rule legacy_address_value)
  from m1 n1 m2 a3 m3 e m4 m5 n6 show ?thesis by blast
qed

text \<open>
  C4 holds up to its last part, which fails on the code for a legacy address field of
  \<open>0x8000\<close> and more. From power-up, a SetExtendedAddress command with the bytes
  \<open>45 23 01 00\<close> sets the extended mode and the address \<open>0x12345\<close>; a
  WriteProgramMemory command whose bytes 2 and 3 are \<open>00 80\<close> leaves the address at
  \<open>0x12345\<close>; a Connect command resets the mode; the same WriteProgramMemory command
  then sets the address to \<open>0xFFFF8000\<close>, not to its legacy field \<open>0x8000\<close>. The
  value of \<open>(data[3] << 8) | data[2]\<close> is an \<open>int\<close> of 16 bits, here
  \<open>-32768\<close>, and its conversion to the \<open>unsigned long\<close> of \<open>prog_address\<close>
  extends the sign. A ReadProgramMemory command with these bytes right after power-up
  gives the same address. The earlier revision keeps \<open>prog_address\<close> in an
  \<open>unsigned int\<close>, where the same expression gives \<open>0x8000\<close>.
\<close>

theorem C4_legacy_address_sign_extended:
  "prog_address_newmode long_latched = 1
   \<and> prog_address long_latched = 0x12345
   \<and> prog_address long_armed = 0x12345
   \<and> prog_address_newmode reconnected = 0
   \<and> unat (int_of_bytes 0x80 0x00) = 0x8000
   \<and> sint (int_of_bytes 0x80 0x00) = - 32768
   \<and> prog_address legacy_armed = 0xFFFF8000
   \<and> prog_address legacy_armed \<noteq> 0x8000
   \<and> prog_address (snd (usbFunctionSetup vusb erased_target
         (vendor_cmd USBASP_FUNC_READFLASH 0x00 0x80 0 0 0 0) power_up)) = 0xFFFF8000"
proof -
  let ?dL = "vendor_cmd USBASP_FUNC_SETLONGADDRESS 0x45 0x23 0x01 0 0 0"
  let ?dA = "vendor_cmd USBASP_FUNC_WRITEFLASH 0x00 0x80 0 0 0 0"
  let ?dC = "vendor_cmd USBASP_FUNC_CONNECT 0 0 0 0 0 0"
  let ?dR = "vendor_cmd USBASP_FUNC_READFLASH 0x00 0x80 0 0 0 0"
  have h: "hid_class_request vusb erased_target ?dL (power_up :: 32 word session) = None"
    by (rule vendor_not_hid)
  have r: "bRequest ?dL = USBASP_FUNC_SETLONGADDRESS"
    "bRequest ?dA \<in> {USBASP_FUNC_READFLASH, USBASP_FUNC_READEEPROM,
                        USBASP_FUNC_WRITEFLASH, USBASP_FUNC_WRITEEEPROM}"
    "bRequest ?dC = USBASP_FUNC_CONNECT"
    "bRequest ?dR \<in> {USBASP_FUNC_READFLASH, USBASP_FUNC_READEEPROM,
                        USBASP_FUNC_WRITEFLASH, USBASP_FUNC_WRITEEEPROM}"
    by (simp_all add: vendor_cmd_def)
  have e: "\<forall>d. Setup d \<in> set [] \<longrightarrow> bRequest d \<noteq> USBASP_FUNC_CONNECT"
    "\<forall>d. Setup d \<in> set [] \<longrightarrow> bRequest d \<noteq> USBASP_FUNC_SETLONGADDRESS"
    by simp_all
  have u: "usb_calls vusb erased_target [] long_latched = Some long_latched"
    "usb_calls vusb erased_target [] reconnected = Some reconnected" by simp_all
  note c = extended_address_mode [OF h r(1) long_latched_def e(1) u(1) vendor_not_hid r(2)
      long_armed_def vendor_not_hid r(3) reconnected_def e(2) u(2) vendor_not_hid r(2)
      legacy_armed_def]
  have d: "data2 ?dL = 0x45" "data3 ?dL = 0x23" "data4 ?dL = 0x01" "data5 ?dL = 0"
    "data2 ?dA = 0" "data3 ?dA = 0x80" "data2 ?dR = 0" "data3 ?dR = 0x80"
    by (simp_all add: vendor_cmd_def)
  from c have "unat (prog_address long_latched) = unat (0x12345 :: 32 word)"
    unfolding d by simp
  then have a1: "prog_address long_latched = 0x12345"
    by (simp only: word_unat_eq_iff)
  from c have m: "prog_address_newmode long_latched = 1" "prog_address_newmode reconnected = 0"
    "prog_address long_armed = prog_address long_latched" by blast+
  from c have "unat (prog_address legacy_armed) = unat (0xFFFF8000 :: 32 word)"
    unfolding d by simp
  then have a6: "prog_address legacy_armed = 0xFFFF8000"
    by (simp only: word_unat_eq_iff)
  have i: "int_of_bytes 0x80 0x00 = 0x8000"
    by (simp add: int_of_bytes_def)
  have "prog_address (snd (usbFunctionSetup vusb erased_target ?dR (power_up :: 32 word session)))
      = legacy_address ?dR"
  proof -
    have "hid_class_request vusb erased_target ?dR (power_up :: 32 word session) = None"
      by (rule vendor_not_hid)
    from arming_address(1) [OF this r(4)] show ?thesis
      by (simp add: power_up_def)
  qed
  moreover have "unat (legacy_address ?dR) = unat (0xFFFF8000 :: 32 word)"
    unfolding legacy_address_value d by simp
  then have "legacy_address ?dR = 0xFFFF8000"
    by (simp only: word_unat_eq_iff)
  ultimately have a0: "prog_address (snd (usbFunctionSetup vusb erased_target ?dR
      (power_up :: 32 word session))) = 0xFFFF8000" by simp
  have "unat (int_of_bytes 0x80 0x00) = 0x8000" "sint (int_of_bytes 0x80 0x00) = - 32768"
    unfolding i by simp_all
  with m a1 a6 a0 show ?thesis by simp
qed

end
